theory Spec2Isabelle
  imports Main "HOL-Library.Word"
begin

section \<open>Strings and regular expressions of the script language\<close>

text \<open>
  A string is a sequence of 16-bit code units. A regular expression is a term over
  character predicates; \<open>matches\<close> decides whether a whole string belongs to its
  language, which is what \<open>re.test(s)\<close> computes for a pattern anchored by \<open>^\<close> and \<open>$\<close>.
\<close>


type_synonym jschar = "16 word"
type_synonym jsstring = "jschar list"

definition js :: "string \<Rightarrow> jsstring" where
  "js s = map of_char s"

datatype rexp =
    Zero
  | One
  | Atom "jschar \<Rightarrow> bool"
  | Alt rexp rexp
  | Seq rexp rexp
  | Star rexp

definition conc :: "jsstring set \<Rightarrow> jsstring set \<Rightarrow> jsstring set" where
  "conc A B = {u @ v | u v. u \<in> A \<and> v \<in> B}"

inductive_set star :: "jsstring set \<Rightarrow> jsstring set" for A :: "jsstring set" where
  star_empty: "[] \<in> star A"
| star_step: "u \<in> A \<Longrightarrow> v \<in> star A \<Longrightarrow> u @ v \<in> star A"

fun lang :: "rexp \<Rightarrow> jsstring set" where
  "lang Zero = {}"
| "lang One = {[]}"
| "lang (Atom p) = {[c] | c. p c}"
| "lang (Alt r s) = lang r \<union> lang s"
| "lang (Seq r s) = conc (lang r) (lang s)"
| "lang (Star r) = star (lang r)"

fun nullable :: "rexp \<Rightarrow> bool" where
  "nullable Zero = False"
| "nullable One = True"
| "nullable (Atom p) = False"
| "nullable (Alt r s) = (nullable r \<or> nullable s)"
| "nullable (Seq r s) = (nullable r \<and> nullable s)"
| "nullable (Star r) = True"

fun deriv :: "jschar \<Rightarrow> rexp \<Rightarrow> rexp" where
  "deriv c Zero = Zero"
| "deriv c One = Zero"
| "deriv c (Atom p) = (if p c then One else Zero)"
| "deriv c (Alt r s) = Alt (deriv c r) (deriv c s)"
| "deriv c (Seq r s) =
     (if nullable r then Alt (Seq (deriv c r) s) (deriv c s) else Seq (deriv c r) s)"
| "deriv c (Star r) = Seq (deriv c r) (Star r)"

fun matches :: "rexp \<Rightarrow> jsstring \<Rightarrow> bool" where
  "matches r [] = nullable r"
| "matches r (c # cs) = matches (deriv c r) cs"


subsection \<open>Derived regular-expression forms\<close>

definition Chr :: "char \<Rightarrow> rexp" where
  "Chr c = Atom (\<lambda>x. x = of_char c)"

definition Plus :: "rexp \<Rightarrow> rexp" where
  "Plus r = Seq r (Star r)"

definition Opt :: "rexp \<Rightarrow> rexp" where
  "Opt r = Alt r One"

fun Rep :: "nat \<Rightarrow> rexp \<Rightarrow> rexp" where
  "Rep 0 r = One"
| "Rep (Suc n) r = Seq r (Rep n r)"

fun RepUpTo :: "nat \<Rightarrow> rexp \<Rightarrow> rexp" where
  "RepUpTo 0 r = One"
| "RepUpTo (Suc n) r = Opt (Seq r (RepUpTo n r))"

definition Range :: "nat \<Rightarrow> nat \<Rightarrow> rexp \<Rightarrow> rexp" where
  "Range m n r = Seq (Rep m r) (RepUpTo (n - m) r)"

text \<open>
  \<open>str.replace(re, rep)\<close> for a global pattern: scanning from the left, the match found
  at a position is replaced and the scan resumes behind it; a position without a match
  keeps its character. The match taken at a position is the longest prefix in the
  language of the pattern. The patterns this program replaces are a single character
  class, the word \<open>javascript:\<close>, \<open>on\w+\s*=\<close> and \<open><[^>]*>\<close>; a match of each of the
  last three ends at the first \<open>:\<close>, \<open>=\<close> or \<open>>\<close> behind its start, so a position has at
  most one matching prefix and the greedy choice of the script engine is that prefix.
\<close>

fun longest_from :: "rexp \<Rightarrow> jsstring \<Rightarrow> nat \<Rightarrow> nat option \<Rightarrow> nat option" where
  "longest_from r [] n best = (if nullable r then Some n else best)"
| "longest_from r (c # cs) n best =
     longest_from (deriv c r) cs (Suc n) (if nullable r then Some n else best)"

definition longest_match :: "rexp \<Rightarrow> jsstring \<Rightarrow> nat option" where
  "longest_match r s = longest_from r s 0 None"

function replace_all :: "rexp \<Rightarrow> jsstring \<Rightarrow> jsstring \<Rightarrow> jsstring" where
  "replace_all r rep [] = (if nullable r then rep else [])"
| "replace_all r rep (c # cs) =
     (case longest_match r (c # cs) of
        None \<Rightarrow> c # replace_all r rep cs
      | Some 0 \<Rightarrow> rep @ c # replace_all r rep cs
      | Some (Suc n) \<Rightarrow> rep @ replace_all r rep (drop n cs))"
  by pat_completeness auto
termination
  by (relation "measure (\<lambda>(r, rep, s). length s)") auto

subsection \<open>Character classes and string primitives of the script engine\<close>

text \<open>The class \<open>\s\<close>; \<open>String.prototype.trim\<close> removes exactly these code units.\<close>

definition is_ws :: "jschar \<Rightarrow> bool" where
  "is_ws c \<longleftrightarrow>
     c \<in> {0x09, 0x0A, 0x0B, 0x0C, 0x0D, 0x20, 0xA0, 0x1680, 0x2028, 0x2029, 0x202F,
          0x205F, 0x3000, 0xFEFF}
     \<or> (0x2000 \<le> c \<and> c \<le> 0x200A)"

definition is_digit :: "jschar \<Rightarrow> bool" where
  "is_digit c \<longleftrightarrow> 0x30 \<le> c \<and> c \<le> 0x39"

definition is_lower :: "jschar \<Rightarrow> bool" where
  "is_lower c \<longleftrightarrow> 0x61 \<le> c \<and> c \<le> 0x7A"

definition is_upper :: "jschar \<Rightarrow> bool" where
  "is_upper c \<longleftrightarrow> 0x41 \<le> c \<and> c \<le> 0x5A"

definition trim :: "jsstring \<Rightarrow> jsstring" where
  "trim s = rev (dropWhile is_ws (rev (dropWhile is_ws s)))"

text \<open>A value a caller may pass where a string is expected.\<close>

datatype jsval = Null | Undefined | Str jsstring

fun truthy :: "jsval \<Rightarrow> bool" where
  "truthy (Str s) = (s \<noteq> [])"
| "truthy Null = False"
| "truthy Undefined = False"

section \<open>Validation helpers (js/validation-helpers.js)\<close>

subsection \<open>The \<open>validator\<close> binding\<close>

record length_opts =
  opt_min :: "nat option"
  opt_max :: "nat option"

record validator_obj =
  isEmail :: "jsstring \<Rightarrow> bool"
  isMobilePhone :: "jsstring \<Rightarrow> bool"
  isLength :: "jsstring \<Rightarrow> length_opts \<Rightarrow> bool"

text \<open>\<^verbatim>\<open>/^[^\s@]+@[^\s@]+\.[^\s@]+$/\<close>\<close>

definition not_ws_at :: "jschar \<Rightarrow> bool" where
  "not_ws_at c \<longleftrightarrow> \<not> is_ws c \<and> c \<noteq> of_char CHR ''@''"

definition email_regex :: rexp where
  "email_regex =
     Seq (Plus (Atom not_ws_at))
       (Seq (Chr CHR ''@'')
         (Seq (Plus (Atom not_ws_at))
           (Seq (Chr CHR ''.'') (Plus (Atom not_ws_at)))))"

text \<open>\<^verbatim>\<open>/^[+]?[\d\s\-().]{7,20}$/\<close>\<close>

definition phone_char :: "jschar \<Rightarrow> bool" where
  "phone_char c \<longleftrightarrow>
     is_digit c \<or> is_ws c \<or> c = of_char CHR ''-'' \<or> c = of_char CHR ''(''
     \<or> c = of_char CHR '')'' \<or> c = of_char CHR ''.''"

definition phone_regex :: rexp where
  "phone_regex = Seq (Opt (Chr CHR ''+'')) (Range 7 20 (Atom phone_char))"

text \<open>
  \<^verbatim>\<open>str.length >= (opts.min || 0) && str.length <= (opts.max || Infinity)\<close>:
  a missing or zero \<open>max\<close> is no upper bound.
\<close>

definition fallback_isLength :: "jsstring \<Rightarrow> length_opts \<Rightarrow> bool" where
  "fallback_isLength str opts \<longleftrightarrow>
     length str \<ge> (case opt_min opts of Some m \<Rightarrow> m | None \<Rightarrow> 0)
     \<and> (case opt_max opts of
          Some m \<Rightarrow> if m = 0 then True else length str \<le> m
        | None \<Rightarrow> True)"

definition fallback_validator :: validator_obj where
  "fallback_validator =
     \<lparr> isEmail = matches email_regex,
       isMobilePhone = matches phone_regex,
       isLength = fallback_isLength \<rparr>"

subsection \<open>The \<open>DOMPurify\<close> binding\<close>

record sanitize_opts =
  ALLOWED_TAGS :: "jsstring list option"

text \<open>\<^verbatim>\<open>/<[^>]*>/g\<close>\<close>

definition tag_regex :: rexp where
  "tag_regex =
     Seq (Chr CHR ''<'') (Seq (Star (Atom (\<lambda>c. c \<noteq> of_char CHR ''>''))) (Chr CHR ''>''))"

text \<open>
  Serialisation of a text node by \<open>innerHTML\<close>: the characters \<open>&\<close>, \<open><\<close>, \<open>>\<close> and the
  no-break space are written as character references.
\<close>

definition escape_text_char :: "jschar \<Rightarrow> jsstring" where
  "escape_text_char c =
     (if c = of_char CHR ''&'' then js ''&amp;''
      else if c = of_char CHR ''<'' then js ''&lt;''
      else if c = of_char CHR ''>'' then js ''&gt;''
      else if c = 0xA0 then js ''&nbsp;''
      else [c])"

definition text_innerHTML :: "jsstring \<Rightarrow> jsstring" where
  "text_innerHTML s = concat (map escape_text_char s)"

text \<open>
  The fallback \<open>sanitize(input, opts)\<close>. With a document, the input is stored as the text
  content of a fresh element and read back: as text when \<open>opts.ALLOWED_TAGS\<close> is an empty
  array, as serialised markup otherwise. Without a document, tags are deleted.
\<close>

definition fallback_sanitize :: "bool \<Rightarrow> jsstring \<Rightarrow> sanitize_opts option \<Rightarrow> jsstring" where
  "fallback_sanitize document_present input opts =
     (if document_present then
        (let textContent = input in
         case opts of
           Some given \<Rightarrow>
             (case ALLOWED_TAGS given of
                Some [] \<Rightarrow> textContent
              | _ \<Rightarrow> text_innerHTML textContent)
         | None \<Rightarrow> text_innerHTML textContent)
      else replace_all tag_regex [] input)"

text \<open>
  What the module finds when it is loaded: each dynamic import either yields the npm
  package (whose functions are parameters here) or throws, and \<open>document\<close> is defined or
  not.
\<close>

record module_env =
  validator_import :: "validator_obj option"
  dompurify_import :: "(jsstring \<Rightarrow> sanitize_opts option \<Rightarrow> jsstring) option"
  document_defined :: bool

definition validator :: "module_env \<Rightarrow> validator_obj" where
  "validator env =
     (case validator_import env of Some v \<Rightarrow> v | None \<Rightarrow> fallback_validator)"

definition DOMPurify_sanitize :: "module_env \<Rightarrow> jsstring \<Rightarrow> sanitize_opts option \<Rightarrow> jsstring" where
  "DOMPurify_sanitize env =
     (case dompurify_import env of
        Some f \<Rightarrow> f
      | None \<Rightarrow> fallback_sanitize (document_defined env))"

subsection \<open>Exported functions\<close>

fun sanitizeInput :: "module_env \<Rightarrow> jsval \<Rightarrow> jsstring" where
  "sanitizeInput env (Str input) =
     (if input = [] then []
      else trim (DOMPurify_sanitize env input (Some \<lparr> ALLOWED_TAGS = Some [] \<rparr>)))"
| "sanitizeInput env Null = []"
| "sanitizeInput env Undefined = []"

text \<open>\<^verbatim>\<open>/^[a-zA-Z\s\-']+$/\<close>\<close>

definition name_char :: "jschar \<Rightarrow> bool" where
  "name_char c \<longleftrightarrow>
     is_lower c \<or> is_upper c \<or> is_ws c \<or> c = of_char CHR ''-'' \<or> c = 0x27"

definition nameRegex :: rexp where
  "nameRegex = Plus (Atom name_char)"

definition isValidName :: "module_env \<Rightarrow> jsval \<Rightarrow> bool" where
  "isValidName env name =
     (if \<not> truthy name then False
      else
        let cleaned = trim (sanitizeInput env name) in
        if length cleaned < 2 \<or> length cleaned > 100 then False
        else matches nameRegex cleaned)"

definition isValidEmail :: "module_env \<Rightarrow> jsval \<Rightarrow> bool" where
  "isValidEmail env email =
     (if \<not> truthy email then False
      else
        let cleaned = trim (sanitizeInput env email) in
        isEmail (validator env) cleaned)"

fun blank :: "jsval \<Rightarrow> bool" where
  "blank (Str s) = (trim s = [])"
| "blank Null = True"
| "blank Undefined = True"

definition isValidPhone :: "module_env \<Rightarrow> jsval \<Rightarrow> bool" where
  "isValidPhone env phone =
     (if \<not> truthy phone \<or> blank phone then True
      else
        let cleaned = trim (sanitizeInput env phone) in
        isMobilePhone (validator env) cleaned)"

definition isValidMessage :: "module_env \<Rightarrow> jsval \<Rightarrow> bool" where
  "isValidMessage env message =
     (if \<not> truthy message then False
      else
        let cleaned = trim (sanitizeInput env message) in
        isLength (validator env) cleaned \<lparr> opt_min = Some 5, opt_max = Some 5000 \<rparr>)"

section \<open>Form controller (contact-validation.js)\<close>

definition API_ENDPOINT :: jsstring where
  "API_ENDPOINT = js ''https://674lumu19j.execute-api.us-west-2.amazonaws.com/prod/contact''"

definition wittyErrorMessages :: "jsstring list" where
  "wittyErrorMessages =
     [js ''Looks like you forgot something! Mind filling out the required fields?'',
      js ''Houston, we have a problem. Some fields are missing!'',
      js ''Not so fast! We need Name, Email, and Message to proceed.'',
      js ''Error 404: Required fields not found!'',
      js ''Come on, you can do better than that! Fill out the required fields.'',
      js ''Oops! Looks like your form is incomplete. We need the essentials!'',
      js ''Hold up! Name, Email, and Message are required. No pressure though!'',
      js ''Nice try! But we're gonna need Name, Email, and Message to make this work.'']"

subsection \<open>The page and what can be observed of a submission\<close>

datatype field = NameField | EmailField | PhoneField | MessageField

record http_request =
  url :: jsstring
  http_method :: string
  headers :: "(string \<times> string) list"
  body :: "(string \<times> jsstring) list"

datatype event =
    PreventDefault
  | ErrorModalShown jsstring "jsstring list"
  | SuccessModalShown
  | Fetch http_request
  | FormReset
  | ConsoleError

text \<open>
  The elements the controller looks up by id. The four inputs, the submit button and the
  form exist; the hidden \<open>website\<close> input may be absent (\<open>None\<close>). \<open>error_modal\<close> is \<open>None\<close>
  until the dialog has been created, then holds the witty sentence and the error list of
  its body.
\<close>

record page =
  field_value :: "field \<Rightarrow> jsstring"
  field_default :: "field \<Rightarrow> jsstring"
  is_invalid :: "field \<Rightarrow> bool"
  website :: "jsstring option"
  submit_disabled :: bool
  submit_innerHTML :: jsstring
  error_modal :: "(jsstring \<times> jsstring list) option"
  success_modal :: bool
  events :: "event list"

definition emit :: "event \<Rightarrow> page \<Rightarrow> page" where
  "emit e st = st\<lparr> events := events st @ [e] \<rparr>"

text \<open>
  The response to the one request. \<open>response.json()\<close> fails on a body that is not JSON,
  yields \<open>null\<close>, or yields a value whose \<open>message\<close> member is a string or is missing.
\<close>

datatype json_body = NotJson | JsonNull | JsonValue "jsstring option"

datatype fetch_outcome = NetworkError | Response bool json_body

subsection \<open>Dialogs\<close>

text \<open>
  \<open>r\<close> is the index \<open>Math.floor(Math.random() * wittyErrorMessages.length)\<close>, one of
  \<open>0, \<dots>, 7\<close>.
\<close>

definition showErrorModal :: "3 word \<Rightarrow> jsstring list \<Rightarrow> page \<Rightarrow> page" where
  "showErrorModal r errors st =
     (let wittyMessage = wittyErrorMessages ! unat r in
      emit (ErrorModalShown wittyMessage errors)
        (st\<lparr> error_modal := Some (wittyMessage, errors) \<rparr>))"

definition showSuccessModal :: "page \<Rightarrow> page" where
  "showSuccessModal st = emit SuccessModalShown (st\<lparr> success_modal := True \<rparr>)"

subsection \<open>Submission\<close>

definition loading_label :: jsstring where
  \<open>loading_label =
     js ''<span class="spinner-border spinner-border-sm me-2"></span>Sending...''\<close>

definition enable_submit :: "page \<Rightarrow> page" where
  "enable_submit st = st\<lparr> submit_disabled := False, submit_innerHTML := js ''Submit'' \<rparr>"

text \<open>The \<open>catch\<close> block of \<open>submitForm\<close>.\<close>

definition submit_catch :: "3 word \<Rightarrow> page \<Rightarrow> page" where
  "submit_catch r st =
     enable_submit
       (showErrorModal r [js ''Failed to send message. Please try again later.'']
         (emit ConsoleError st))"

text \<open>
  \<open>submitForm(formData)\<close>, run until the response has been handled. \<open>formData\<close> is the
  object literal the caller built, as its members in order; the request body is its JSON
  text.
\<close>

definition submitForm ::
  "(string \<times> jsstring) list \<Rightarrow> fetch_outcome \<Rightarrow> 3 word \<Rightarrow> page \<Rightarrow> page" where
  "submitForm formData outcome r st =
     (let st = st\<lparr> submit_disabled := True, submit_innerHTML := loading_label \<rparr>;
          st = emit (Fetch \<lparr> url = API_ENDPOINT, http_method = ''POST'',
                            headers = [(''Content-Type'', ''application/json'')],
                            body = formData \<rparr>) st
      in case outcome of
           NetworkError \<Rightarrow> submit_catch r st
         | Response ok result \<Rightarrow>
             (case result of
                NotJson \<Rightarrow> submit_catch r st
              | JsonNull \<Rightarrow>
                  if ok then
                    enable_submit
                      (emit FormReset
                        ((showSuccessModal st)\<lparr> field_value := field_default st \<rparr>))
                  else submit_catch r st
              | JsonValue message \<Rightarrow>
                  if ok then
                    enable_submit
                      (emit FormReset
                        ((showSuccessModal st)\<lparr> field_value := field_default st \<rparr>))
                  else
                    enable_submit
                      (showErrorModal r
                        [case message of
                           Some m \<Rightarrow> if m \<noteq> [] then m else js ''Failed to send message''
                         | None \<Rightarrow> js ''Failed to send message'']
                        st)))"

subsection \<open>Validation of a submit event\<close>

definition add_error :: "field \<Rightarrow> jsstring \<Rightarrow> page \<times> jsstring list \<Rightarrow> page \<times> jsstring list" where
  "add_error f msg acc =
     (case acc of (st, errors) \<Rightarrow>
        (st\<lparr> is_invalid := (is_invalid st)(f := True) \<rparr>, errors @ [msg]))"

definition clear_errors :: "page \<Rightarrow> page" where
  "clear_errors st =
     st\<lparr> is_invalid :=
           (is_invalid st)(NameField := False, EmailField := False,
                           PhoneField := False, MessageField := False) \<rparr>"

text \<open>
  The part of \<open>validateContactForm\<close> that fills \<open>errors\<close>, on the sanitized values.
\<close>

definition collect_errors ::
  "module_env \<Rightarrow> jsstring \<Rightarrow> jsstring \<Rightarrow> jsstring \<Rightarrow> jsstring \<Rightarrow> page \<Rightarrow> page \<times> jsstring list" where
  "collect_errors env name email phone message st =
     (let acc = (st, []);
          acc =
            (if name = [] then add_error NameField (js ''Name is required'') acc
             else if \<not> isValidName env (Str name) then
               add_error NameField
                 (js ''Name must be at least 2 characters and contain only letters, spaces, hyphens, and apostrophes'')
                 acc
             else acc);
          acc =
            (if email = [] then add_error EmailField (js ''Email is required'') acc
             else if \<not> isValidEmail env (Str email) then
               add_error EmailField (js ''Please enter a valid email address'') acc
             else acc);
          acc =
            (if phone \<noteq> [] \<and> \<not> isValidPhone env (Str phone) then
               add_error PhoneField (js ''Phone number format is invalid'') acc
             else acc);
          acc =
            (if message = [] then add_error MessageField (js ''Message is required'') acc
             else if \<not> isValidMessage env (Str message) then
               add_error MessageField (js ''Message must be between 5 and 5000 characters'') acc
             else acc)
      in acc)"

text \<open>
  \<open>validateContactForm(event)\<close>: the value returned (\<open>Some False\<close> for \<open>return false\<close>, \<open>None\<close>
  when the function runs to its end) and the page afterwards.
\<close>

definition validateContactForm ::
  "module_env \<Rightarrow> 3 word \<Rightarrow> fetch_outcome \<Rightarrow> page \<Rightarrow> bool option \<times> page" where
  "validateContactForm env r outcome st =
     (let st = emit PreventDefault st;
          name = sanitizeInput env (Str (field_value st NameField));
          email = sanitizeInput env (Str (field_value st EmailField));
          phone = sanitizeInput env (Str (field_value st PhoneField));
          message = sanitizeInput env (Str (field_value st MessageField));
          st = clear_errors st
      in case collect_errors env name email phone message st of
           (st, errors) \<Rightarrow>
             if length errors > 0 then (Some False, showErrorModal r errors st)
             else if (case website st of Some v \<Rightarrow> v \<noteq> [] | None \<Rightarrow> False) then
               (Some False, st)
             else
               (None,
                submitForm
                  [(''name'', name), (''email'', email),
                   (''phone'', if phone \<noteq> [] then phone else []),
                   (''message'', message)]
                  outcome r st))"

section \<open>The controller variant with built-in validators and a CSRF token\<close>

text \<open>
  This variant of contact-validation.js imports nothing: it defines \<open>sanitizeInput\<close> and
  the four predicates itself, sends a \<open>csrf_token\<close> member and has no honeypot check.
  Its \<open>showErrorModal\<close>, \<open>showSuccessModal\<close> and \<open>submitForm\<close> are the ones above.
\<close>

fun Seqs :: "rexp list \<Rightarrow> rexp" where
  "Seqs [] = One"
| "Seqs [r] = r"
| "Seqs (r # rs) = Seq r (Seqs rs)"

text \<open>A letter under the \<open>i\<close> flag: the lower-case code unit or its upper-case partner.\<close>

definition ci :: "char \<Rightarrow> rexp" where
  "ci c = Atom (\<lambda>x. x = of_char c \<or> x + 0x20 = of_char c)"

definition is_word :: "jschar \<Rightarrow> bool" where
  "is_word c \<longleftrightarrow> is_lower c \<or> is_upper c \<or> is_digit c \<or> c = of_char CHR ''_''"

text \<open>\<^verbatim>\<open>/javascript:/gi\<close>\<close>

definition javascript_regex :: rexp where
  "javascript_regex =
     Seqs [ci CHR ''j'', ci CHR ''a'', ci CHR ''v'', ci CHR ''a'', ci CHR ''s'', ci CHR ''c'',
           ci CHR ''r'', ci CHR ''i'', ci CHR ''p'', ci CHR ''t'', Chr CHR '':'']"

text \<open>\<^verbatim>\<open>/on\w+\s*=/gi\<close>\<close>

definition handler_regex :: rexp where
  "handler_regex =
     Seqs [ci CHR ''o'', ci CHR ''n'', Plus (Atom is_word), Star (Atom is_ws), Chr CHR ''='']"

fun sanitizeInput_builtin :: "jsval \<Rightarrow> jsstring" where
  "sanitizeInput_builtin (Str input) =
     (if input = [] then []
      else
        let sanitized = replace_all tag_regex [] input;
            sanitized = replace_all javascript_regex [] sanitized;
            sanitized = replace_all handler_regex [] sanitized;
            sanitized = replace_all (Chr CHR ''&'') (js ''&amp;'') sanitized;
            sanitized = replace_all (Chr CHR ''<'') (js ''&lt;'') sanitized;
            sanitized = replace_all (Chr CHR ''>'') (js ''&gt;'') sanitized;
            sanitized = replace_all (Chr CHR 0x22) (js ''&quot;'') sanitized;
            sanitized = replace_all (Chr CHR 0x27) (js ''&#x27;'') sanitized
        in trim sanitized)"
| "sanitizeInput_builtin Null = []"
| "sanitizeInput_builtin Undefined = []"

definition isValidName_builtin :: "jsval \<Rightarrow> bool" where
  "isValidName_builtin name =
     (let cleaned = trim (sanitizeInput_builtin name) in
      if cleaned = [] \<or> length cleaned < 2 then False
      else if length cleaned > 100 then False
      else matches nameRegex cleaned)"

text \<open>
  \<open>toLowerCase\<close> follows the engine's Unicode tables and is a parameter.
  \<open>cleaned.split("@")[0]\<close> is the text before the first \<open>@\<close>.
\<close>

definition isValidEmail_builtin :: "(jsstring \<Rightarrow> jsstring) \<Rightarrow> jsval \<Rightarrow> bool" where
  "isValidEmail_builtin toLowerCase email =
     (let cleaned = toLowerCase (trim (sanitizeInput_builtin email)) in
      if \<not> matches email_regex cleaned then False
      else if length cleaned > 254 then False
      else if length (takeWhile (\<lambda>c. c \<noteq> of_char CHR ''@'') cleaned) > 64 then False
      else True)"

text \<open>\<^verbatim>\<open>/^[\d\s\-()+]+$/\<close> and \<^verbatim>\<open>/\D/g\<close>\<close>

definition phone_char_builtin :: "jschar \<Rightarrow> bool" where
  "phone_char_builtin c \<longleftrightarrow>
     is_digit c \<or> is_ws c \<or> c = of_char CHR ''-'' \<or> c = of_char CHR ''(''
     \<or> c = of_char CHR '')'' \<or> c = of_char CHR ''+''"

definition isValidPhone_builtin :: "jsval \<Rightarrow> bool" where
  "isValidPhone_builtin phone =
     (if \<not> truthy phone \<or> blank phone then True
      else
        let cleaned = trim (sanitizeInput_builtin phone) in
        if \<not> matches (Plus (Atom phone_char_builtin)) cleaned then False
        else
          let digitsOnly = replace_all (Atom (\<lambda>c. \<not> is_digit c)) [] cleaned in
          if length digitsOnly < 7 \<or> length digitsOnly > 15 then False
          else True)"

definition isValidMessage_builtin :: "jsval \<Rightarrow> bool" where
  "isValidMessage_builtin message =
     (let cleaned = trim (sanitizeInput_builtin message) in
      if cleaned = [] \<or> length cleaned < 5 then False
      else if length cleaned > 5000 then False
      else True)"

definition collect_errors_builtin ::
  "(jsstring \<Rightarrow> jsstring) \<Rightarrow> jsstring \<Rightarrow> jsstring \<Rightarrow> jsstring \<Rightarrow> jsstring \<Rightarrow> page
     \<Rightarrow> page \<times> jsstring list" where
  "collect_errors_builtin toLowerCase name email phone message st =
     (let acc = (st, []);
          acc =
            (if name = [] then add_error NameField (js ''Name is required'') acc
             else if \<not> isValidName_builtin (Str name) then
               add_error NameField
                 (js ''Name must be at least 2 characters and contain only letters, spaces, hyphens, and apostrophes'')
                 acc
             else acc);
          acc =
            (if email = [] then add_error EmailField (js ''Email is required'') acc
             else if \<not> isValidEmail_builtin toLowerCase (Str email) then
               add_error EmailField (js ''Please enter a valid email address'') acc
             else acc);
          acc =
            (if phone \<noteq> [] \<and> \<not> isValidPhone_builtin (Str phone) then
               add_error PhoneField (js ''Phone number format is invalid'') acc
             else acc);
          acc =
            (if message = [] then add_error MessageField (js ''Message is required'') acc
             else if \<not> isValidMessage_builtin (Str message) then
               add_error MessageField (js ''Message must be between 5 and 5000 characters'') acc
             else acc)
      in acc)"

text \<open>\<open>CSRF_TOKEN\<close> is the module variable, read when the form data is built.\<close>

definition validateContactForm_csrf ::
  "(jsstring \<Rightarrow> jsstring) \<Rightarrow> jsstring \<Rightarrow> 3 word \<Rightarrow> fetch_outcome \<Rightarrow> page
     \<Rightarrow> bool option \<times> page" where
  "validateContactForm_csrf toLowerCase CSRF_TOKEN r outcome st =
     (let st = emit PreventDefault st;
          name = sanitizeInput_builtin (Str (field_value st NameField));
          email = sanitizeInput_builtin (Str (field_value st EmailField));
          phone = sanitizeInput_builtin (Str (field_value st PhoneField));
          message = sanitizeInput_builtin (Str (field_value st MessageField));
          st = clear_errors st
      in case collect_errors_builtin toLowerCase name email phone message st of
           (st, errors) \<Rightarrow>
             if length errors > 0 then (Some False, showErrorModal r errors st)
             else
               (None,
                submitForm
                  [(''name'', name), (''email'', email),
                   (''phone'', if phone \<noteq> [] then phone else []),
                   (''message'', message), (''csrf_token'', CSRF_TOKEN)]
                  outcome r st))"

section \<open>Two ways the helper module is loaded without the npm packages\<close>

text \<open>
  In a browser both dynamic imports fail and \<open>document\<close> exists; in a bare script host
  they fail and there is no \<open>document\<close>.
\<close>

definition browser_env :: module_env where
  "browser_env = \<lparr> validator_import = None, dompurify_import = None, document_defined = True \<rparr>"

definition bare_env :: module_env where
  "bare_env = \<lparr> validator_import = None, dompurify_import = None, document_defined = False \<rparr>"

section \<open>Notions used to state the claims\<close>

text \<open>Changing the case of the letters \<open>a\<close> to \<open>z\<close> and \<open>A\<close> to \<open>Z\<close> of a string.\<close>

definition ascii_upper :: "jschar \<Rightarrow> jschar" where
  "ascii_upper c = (if is_lower c then c - 0x20 else c)"

definition ascii_lower :: "jschar \<Rightarrow> jschar" where
  "ascii_lower c = (if is_upper c then c + 0x20 else c)"

text \<open>A character map that no character class of a pattern can tell from the identity.\<close>

fun preserves_classes :: "(jschar \<Rightarrow> jschar) \<Rightarrow> rexp \<Rightarrow> bool" where
  "preserves_classes f Zero = True"
| "preserves_classes f One = True"
| "preserves_classes f (Atom p) = (\<forall>c. p (f c) = p c)"
| "preserves_classes f (Alt r s) = (preserves_classes f r \<and> preserves_classes f s)"
| "preserves_classes f (Seq r s) = (preserves_classes f r \<and> preserves_classes f s)"
| "preserves_classes f (Star r) = preserves_classes f r"

text \<open>The network calls among the observed events, in order.\<close>

fun requests :: "event list \<Rightarrow> http_request list" where
  "requests [] = []"
| "requests (Fetch q # es) = q # requests es"
| "requests (e # es) = requests es"

text \<open>The dialogs shown among the observed events, in order.\<close>

fun dialogs :: "event list \<Rightarrow> event list" where
  "dialogs [] = []"
| "dialogs (ErrorModalShown w errs # es) = ErrorModalShown w errs # dialogs es"
| "dialogs (SuccessModalShown # es) = SuccessModalShown # dialogs es"
| "dialogs (e # es) = dialogs es"

text \<open>
  A submission passes validation when none of the checks of \<open>validateContactForm\<close> adds an
  error: the sanitized name, e-mail address and message are non-empty and accepted by
  their predicates, and the sanitized phone number is empty or accepted.
\<close>

definition fields_valid :: "module_env \<Rightarrow> page \<Rightarrow> bool" where
  "fields_valid env st \<longleftrightarrow>
     (let name = sanitizeInput env (Str (field_value st NameField));
          email = sanitizeInput env (Str (field_value st EmailField));
          phone = sanitizeInput env (Str (field_value st PhoneField));
          message = sanitizeInput env (Str (field_value st MessageField))
      in name \<noteq> [] \<and> isValidName env (Str name)
         \<and> email \<noteq> [] \<and> isValidEmail env (Str email)
         \<and> (phone = [] \<or> isValidPhone env (Str phone))
         \<and> message \<noteq> [] \<and> isValidMessage env (Str message))"

definition fields_valid_builtin :: "(jsstring \<Rightarrow> jsstring) \<Rightarrow> page \<Rightarrow> bool" where
  "fields_valid_builtin toLowerCase st \<longleftrightarrow>
     (let name = sanitizeInput_builtin (Str (field_value st NameField));
          email = sanitizeInput_builtin (Str (field_value st EmailField));
          phone = sanitizeInput_builtin (Str (field_value st PhoneField));
          message = sanitizeInput_builtin (Str (field_value st MessageField))
      in name \<noteq> [] \<and> isValidName_builtin (Str name)
         \<and> email \<noteq> [] \<and> isValidEmail_builtin toLowerCase (Str email)
         \<and> (phone = [] \<or> isValidPhone_builtin (Str phone))
         \<and> message \<noteq> [] \<and> isValidMessage_builtin (Str message))"

text \<open>
  The contact page as loaded, before anything is typed, and the same page with the four
  inputs and the hidden input filled in.
\<close>

definition fresh_page :: page where
  "fresh_page =
     \<lparr> field_value = (\<lambda>f. []), field_default = (\<lambda>f. []), is_invalid = (\<lambda>f. False),
       website = Some [], submit_disabled = False, submit_innerHTML = js ''Submit'',
       error_modal = None, success_modal = False, events = [] \<rparr>"

definition filled_page :: "string \<Rightarrow> string \<Rightarrow> string \<Rightarrow> string \<Rightarrow> string \<Rightarrow> page" where
  "filled_page name email phone message honeypot =
     fresh_page
       \<lparr> field_value :=
           (\<lambda>f. case f of NameField \<Rightarrow> js name | EmailField \<Rightarrow> js email
                 | PhoneField \<Rightarrow> js phone | MessageField \<Rightarrow> js message),
         website := Some (js honeypot) \<rparr>"

section \<open>Properties of the regular-expression engine\<close>

lemma nullable_lang: "nullable r \<longleftrightarrow> [] \<in> lang r"
  by (induction r) (auto simp: conc_def intro: star.intros)

lemma conc_left_quot:
  "{w. c # w \<in> conc A B} = conc {w. c # w \<in> A} B \<union> (if [] \<in> A then {w. c # w \<in> B} else {})"
  by (auto simp: conc_def Cons_eq_append_conv)

lemma star_cons_split:
  assumes "w \<in> star A" "w = c # x"
  shows "\<exists>u v. c # u \<in> A \<and> v \<in> star A \<and> x = u @ v"
  using assms
proof (induction arbitrary: x rule: star.induct)
  case star_empty
  then show ?case by simp
next
  case (star_step u v)
  show ?case
  proof (cases u)
    case Nil
    with star_step show ?thesis by simp
  next
    case (Cons d u')
    with star_step.prems have "d = c" "x = u' @ v" by simp_all
    with Cons star_step.hyps show ?thesis by blast
  qed
qed

lemma star_left_quot: "{w. c # w \<in> star A} = conc {w. c # w \<in> A} (star A)"
proof (rule set_eqI, rule iffI)
  fix x assume "x \<in> {w. c # w \<in> star A}"
  then show "x \<in> conc {w. c # w \<in> A} (star A)"
    using star_cons_split [of "c # x" A c x] by (auto simp: conc_def)
next
  fix x assume "x \<in> conc {w. c # w \<in> A} (star A)"
  then obtain u v where "c # u \<in> A" "v \<in> star A" "x = u @ v"
    by (auto simp: conc_def)
  then show "x \<in> {w. c # w \<in> star A}"
    using star_step [of "c # u" A v] by simp
qed

lemma deriv_lang: "lang (deriv c r) = {w. c # w \<in> lang r}"
proof (induction r)
  case (Seq r s)
  then show ?case by (simp add: conc_left_quot nullable_lang)
next
  case (Star r)
  then show ?case by (simp add: star_left_quot)
qed auto

lemma matches_lang: "matches r w \<longleftrightarrow> w \<in> lang r"
  by (induction w arbitrary: r) (simp_all add: nullable_lang deriv_lang)

lemma star_atoms: "star {[c] | c. p c} = {w. \<forall>c \<in> set w. p c}"
proof (rule set_eqI, rule iffI)
  fix w assume "w \<in> star {[c] | c. p c}"
  then show "w \<in> {w. \<forall>c \<in> set w. p c}"
    by (induction rule: star.induct) auto
next
  fix w assume "w \<in> {w. \<forall>c \<in> set w. p c}"
  then have "\<forall>c \<in> set w. p c" by simp
  then show "w \<in> star {[c] | c. p c}"
  proof (induction w)
    case Nil
    show ?case by (rule star_empty)
  next
    case (Cons a w)
    then have "[a] \<in> {[c] | c. p c}" "w \<in> star {[c] | c. p c}" by auto
    then have "[a] @ w \<in> star {[c] | c. p c}" by (rule star_step)
    then show ?case by simp
  qed
qed

lemma lang_Star_Atom: "lang (Star (Atom p)) = {w. \<forall>c \<in> set w. p c}"
  by (simp add: star_atoms)

lemma lang_Plus_Atom: "lang (Plus (Atom p)) = {w. w \<noteq> [] \<and> (\<forall>c \<in> set w. p c)}"
proof -
  have "conc {[c] | c. p c} {w. \<forall>c \<in> set w. p c} = {w. w \<noteq> [] \<and> (\<forall>c \<in> set w. p c)}"
  proof (rule set_eqI, rule iffI)
    fix w assume "w \<in> conc {[c] | c. p c} {w. \<forall>c \<in> set w. p c}"
    then show "w \<in> {w. w \<noteq> [] \<and> (\<forall>c \<in> set w. p c)}"
      by (auto simp: conc_def)
  next
    fix w assume "w \<in> {w. w \<noteq> [] \<and> (\<forall>c \<in> set w. p c)}"
    then obtain a x where "w = [a] @ x" "p a" "\<forall>c \<in> set x. p c"
      by (cases w) auto
    then show "w \<in> conc {[c] | c. p c} {w. \<forall>c \<in> set w. p c}"
      unfolding conc_def by blast
  qed
  then show ?thesis by (simp add: Plus_def star_atoms)
qed

lemma matches_Plus_Atom: "matches (Plus (Atom p)) w \<longleftrightarrow> w \<noteq> [] \<and> (\<forall>c \<in> set w. p c)"
  by (simp add: matches_lang lang_Plus_Atom)

lemma all_le_Suc_split: "(\<forall>j \<le> Suc m. Q j) \<longleftrightarrow> Q 0 \<and> (\<forall>j \<le> m. Q (Suc j))"
proof
  assume "\<forall>j \<le> Suc m. Q j"
  then show "Q 0 \<and> (\<forall>j \<le> m. Q (Suc j))" by simp
next
  assume a: "Q 0 \<and> (\<forall>j \<le> m. Q (Suc j))"
  show "\<forall>j \<le> Suc m. Q j"
  proof (intro allI impI)
    fix j assume "j \<le> Suc m"
    with a show "Q j" by (cases j) auto
  qed
qed

lemma longest_from_cases:
  "(longest_from r s n best = best \<and> (\<forall>k \<le> length s. take k s \<notin> lang r))
   \<or> (\<exists>k \<le> length s. longest_from r s n best = Some (n + k) \<and> take k s \<in> lang r
         \<and> (\<forall>j \<le> length s. take j s \<in> lang r \<longrightarrow> j \<le> k))"
proof (induction s arbitrary: r n best)
  case Nil
  show ?case by (simp add: nullable_lang)
next
  case (Cons c cs)
  let ?b = "if nullable r then Some n else best"
  note IH = Cons.IH [of "deriv c r" "Suc n" ?b]
  have split: "\<And>Q. (\<forall>j \<le> length (c # cs). Q j) \<longleftrightarrow> Q 0 \<and> (\<forall>j \<le> length cs. Q (Suc j))"
    by (simp add: all_le_Suc_split)
  from IH show ?case
  proof (elim disjE conjE exE)
    assume a: "longest_from (deriv c r) cs (Suc n) ?b = ?b"
      and b: "\<forall>k\<le>length cs. take k cs \<notin> lang (deriv c r)"
    show ?thesis
    proof (cases "nullable r")
      case True
      with a b have "longest_from r (c # cs) n best = Some (n + 0)"
        "take 0 (c # cs) \<in> lang r"
        "\<forall>j \<le> length (c # cs). take j (c # cs) \<in> lang r \<longrightarrow> j \<le> 0"
        unfolding split by (simp_all add: nullable_lang deriv_lang)
      then show ?thesis by blast
    next
      case False
      with a b have "longest_from r (c # cs) n best = best"
        "\<forall>k \<le> length (c # cs). take k (c # cs) \<notin> lang r"
        unfolding split by (simp_all add: nullable_lang deriv_lang)
      then show ?thesis by blast
    qed
  next
    fix k assume k: "k \<le> length cs"
      and a: "longest_from (deriv c r) cs (Suc n) ?b = Some (Suc n + k)"
      and b: "take k cs \<in> lang (deriv c r)"
      and m: "\<forall>j\<le>length cs. take j cs \<in> lang (deriv c r) \<longrightarrow> j \<le> k"
    have "Suc k \<le> length (c # cs)" using k by simp
    moreover have "longest_from r (c # cs) n best = Some (n + Suc k)" using a by simp
    moreover have "take (Suc k) (c # cs) \<in> lang r" using b by (simp add: deriv_lang)
    moreover have "\<forall>j \<le> length (c # cs). take j (c # cs) \<in> lang r \<longrightarrow> j \<le> Suc k"
      unfolding split using m by (simp add: deriv_lang)
    ultimately show ?thesis by blast
  qed
qed

lemma longest_match_None:
  "longest_match r s = None \<longleftrightarrow> (\<forall>k \<le> length s. take k s \<notin> lang r)"
  using longest_from_cases [of r s 0 None] by (auto simp: longest_match_def)

lemma longest_match_Some:
  "longest_match r s = Some k \<longleftrightarrow>
     k \<le> length s \<and> take k s \<in> lang r \<and> (\<forall>j \<le> length s. take j s \<in> lang r \<longrightarrow> j \<le> k)"
  using longest_from_cases [of r s 0 None] by (auto simp: longest_match_def dest: le_antisym)

subsection \<open>The tag pattern\<close>

lemma lang_Chr: "lang (Chr c) = {[of_char c]}"
  by (auto simp: Chr_def)

lemma lang_tag_regex:
  "lang tag_regex =
     {of_char CHR ''<'' # x @ [of_char CHR ''>''] | x. of_char CHR ''>'' \<notin> set x}"
  unfolding tag_regex_def lang.simps lang_Chr star_atoms
  by (auto simp: conc_def)

lemma tag_prefix_iff:
  "k \<le> length s \<and> take k s \<in> lang tag_regex \<longleftrightarrow>
     (\<exists>cs. s = of_char CHR ''<'' # cs \<and> of_char CHR ''>'' \<in> set cs
        \<and> k = Suc (Suc (length (takeWhile (\<lambda>c. c \<noteq> of_char CHR ''>'') cs))))"
  (is "?L \<longleftrightarrow> ?R")
proof
  assume ?L
  then obtain x where x: "take k s = of_char CHR ''<'' # x @ [of_char CHR ''>'']"
    "of_char CHR ''>'' \<notin> set x" and k: "k \<le> length s"
    by (auto simp: lang_tag_regex)
  from x(1) obtain cs k' where s: "s = of_char CHR ''<'' # cs" and k': "k = Suc k'"
    and t: "take k' cs = x @ [of_char CHR ''>'']"
    by (cases s; cases k) auto
  define rest where "rest = drop k' cs"
  from k s k' have "k' \<le> length cs" by simp
  then have "length (take k' cs) = k'" by simp
  with t have len: "k' = Suc (length x)" by simp
  have "cs = take k' cs @ rest" unfolding rest_def by simp
  with t have cs: "cs = x @ of_char CHR ''>'' # rest" by simp
  have "\<And>c. c \<in> set x \<Longrightarrow> c \<noteq> of_char CHR ''>''" using x(2) by auto
  then have "takeWhile (\<lambda>c. c \<noteq> of_char CHR ''>'') cs = x"
    unfolding cs by (simp add: takeWhile_append2)
  then have "k = Suc (Suc (length (takeWhile (\<lambda>c. c \<noteq> of_char CHR ''>'') cs)))"
    using k' len by simp
  moreover have "of_char CHR ''>'' \<in> set cs" unfolding cs by simp
  ultimately show ?R using s by blast
next
  assume ?R
  then obtain cs where cs: "s = of_char CHR ''<'' # cs" "of_char CHR ''>'' \<in> set cs"
    "k = Suc (Suc (length (takeWhile (\<lambda>c. c \<noteq> of_char CHR ''>'') cs)))" by blast
  let ?x = "takeWhile (\<lambda>c. c \<noteq> of_char CHR ''>'') cs"
  let ?y = "dropWhile (\<lambda>c. c \<noteq> of_char CHR ''>'') cs"
  let ?A = "of_char CHR ''<'' # ?x @ [of_char CHR ''>'']"
  have "?y \<noteq> []" using cs(2) by simp
  moreover from this have "hd ?y = of_char CHR ''>''"
    using hd_dropWhile [of "\<lambda>c. c \<noteq> of_char CHR ''>''" cs] by simp
  ultimately obtain z where z: "?y = of_char CHR ''>'' # z" by (cases ?y) auto
  have "cs = ?x @ ?y" by simp
  then have "cs = ?x @ of_char CHR ''>'' # z" unfolding z .
  then have sA: "s = ?A @ z" using cs(1) by simp
  have kA: "k = length ?A" using cs(3) by simp
  from sA have tk: "take (length ?A) s = ?A" by (metis append_eq_conv_conj)
  from sA have "length s = length ?A + length z" by (metis length_append)
  then have le: "k \<le> length s" unfolding kA by simp
  have "of_char CHR ''>'' \<notin> set ?x" by (auto dest: set_takeWhileD)
  then have "?A \<in> lang tag_regex" unfolding lang_tag_regex by blast
  then have "take k s \<in> lang tag_regex" unfolding kA tk .
  with le show ?L by blast
qed

lemma longest_match_tag:
  "longest_match tag_regex (c # cs) =
     (if c = of_char CHR ''<'' \<and> of_char CHR ''>'' \<in> set cs
      then Some (Suc (Suc (length (takeWhile (\<lambda>c. c \<noteq> of_char CHR ''>'') cs))))
      else None)"
proof -
  let ?k = "Suc (Suc (length (takeWhile (\<lambda>c. c \<noteq> of_char CHR ''>'') cs)))"
  let ?C = "c = of_char CHR ''<'' \<and> of_char CHR ''>'' \<in> set cs"
  have pre: "(j \<le> length (c # cs) \<and> take j (c # cs) \<in> lang tag_regex) = (?C \<and> j = ?k)" for j
  proof -
    have "(\<exists>cs'. c # cs = of_char CHR ''<'' # cs' \<and> of_char CHR ''>'' \<in> set cs'
             \<and> j = Suc (Suc (length (takeWhile (\<lambda>c. c \<noteq> of_char CHR ''>'') cs'))))
          = (?C \<and> j = ?k)"
      by auto
    with tag_prefix_iff [of j "c # cs"] show ?thesis by (rule trans)
  qed
  show ?thesis
  proof (cases ?C)
    case True
    have 1: "?k \<le> length (c # cs)" and 2: "take ?k (c # cs) \<in> lang tag_regex"
      using True pre [of ?k] by simp_all
    have 3: "j \<le> ?k" if "j \<le> length (c # cs)" "take j (c # cs) \<in> lang tag_regex" for j
      using pre [of j] that by simp
    have "longest_match tag_regex (c # cs) = Some ?k"
      unfolding longest_match_Some using 1 2 3 by (intro conjI allI impI)
    with True show ?thesis by simp
  next
    case False
    have "take k (c # cs) \<notin> lang tag_regex" if "k \<le> length (c # cs)" for k
      using pre [of k] that False by blast
    then have "longest_match tag_regex (c # cs) = None"
      unfolding longest_match_None by (intro allI impI)
    with False show ?thesis by simp
  qed
qed

lemma strip_tags_Nil: "replace_all tag_regex [] [] = []"
  by (simp add: tag_regex_def Chr_def)

lemma strip_tags_Cons:
  "replace_all tag_regex [] (c # cs) =
     (if c = of_char CHR ''<'' \<and> of_char CHR ''>'' \<in> set cs
      then replace_all tag_regex [] (tl (dropWhile (\<lambda>c. c \<noteq> of_char CHR ''>'') cs))
      else c # replace_all tag_regex [] cs)"
  by (simp add: longest_match_tag dropWhile_eq_drop drop_Suc tl_drop)

subsection \<open>Trimming\<close>

lemma trim_Nil: "trim [] = []"
  by (simp add: trim_def)

lemma trim_ends:
  assumes "trim s \<noteq> []"
  shows "\<not> is_ws (hd (trim s))" and "\<not> is_ws (last (trim s))"
proof -
  let ?d = "dropWhile is_ws s"
  let ?e = "dropWhile is_ws (rev ?d)"
  have e: "?e \<noteq> []" using assms by (simp add: trim_def)
  then have "\<not> is_ws (hd ?e)" by (rule hd_dropWhile)
  then show "\<not> is_ws (last (trim s))" using e by (simp add: trim_def last_rev)
  have d: "?d \<noteq> []"
  proof
    assume a: "?d = []"
    have "?e = []" unfolding a by simp
    with e show False by simp
  qed
  then have "\<not> is_ws (hd ?d)" by (rule hd_dropWhile)
  moreover have "last ?e = last (rev ?d)"
  proof -
    have "rev ?d = takeWhile is_ws (rev ?d) @ ?e" by simp
    then show ?thesis using e by (metis last_appendR)
  qed
  ultimately show "\<not> is_ws (hd (trim s))" using d e by (simp add: trim_def hd_rev last_rev)
qed

lemma trim_fixed:
  assumes "s = [] \<or> (\<not> is_ws (hd s) \<and> \<not> is_ws (last s))"
  shows "trim s = s"
proof (cases "s = []")
  case True
  then show ?thesis by (simp add: trim_def)
next
  case False
  with assms have h: "\<not> is_ws (hd s)" and l: "\<not> is_ws (last s)" by auto
  from False h have "dropWhile is_ws s = s" by (cases s) auto
  moreover from False l have "dropWhile is_ws (rev s) = rev s"
    by (cases "rev s") (auto simp: last_rev [symmetric] hd_rev)
  ultimately show ?thesis by (simp add: trim_def)
qed

lemma trim_idem: "trim (trim s) = trim s"
  using trim_ends [of s] trim_fixed [of "trim s"] by blast

lemma trim_infix: "\<exists>a b. s = a @ trim s @ b"
proof -
  let ?d = "dropWhile is_ws s"
  have "s = takeWhile is_ws s @ ?d" by simp
  moreover have "rev ?d = takeWhile is_ws (rev ?d) @ dropWhile is_ws (rev ?d)" by simp
  then have "?d = trim s @ rev (takeWhile is_ws (rev ?d))"
    unfolding trim_def by (metis rev_append rev_rev_ident)
  ultimately have "s = takeWhile is_ws s @ trim s @ rev (takeWhile is_ws (rev ?d))"
    by metis
  then show ?thesis by blast
qed

lemma length_trim: "length (trim s) \<le> length s"
proof -
  obtain a b where "s = a @ trim s @ b" using trim_infix by blast
  then have "length s = length a + length (trim s) + length b"
    by (metis length_append add.assoc)
  then show ?thesis by simp
qed

lemma set_trim: "set (trim s) \<subseteq> set s"
proof -
  obtain a b where "s = a @ trim s @ b" using trim_infix by blast
  then have "set s = set a \<union> set (trim s) \<union> set b" by (metis set_append Un_assoc)
  then show ?thesis by blast
qed

lemma trim_map:
  assumes "\<And>c. is_ws (f c) = is_ws c"
  shows "trim (map f s) = map f (trim s)"
proof -
  have "is_ws \<circ> f = is_ws" using assms by (simp add: fun_eq_iff)
  then show ?thesis
    by (simp add: trim_def dropWhile_map rev_map)
qed

subsection \<open>Deleting tags\<close>

text \<open>A string is free of tags when no \<open><\<close> in it is followed, anywhere later, by a \<open>>\<close>.\<close>

lemma tag_free_infix:
  assumes "\<forall>u v. s = u @ of_char CHR ''<'' # v \<longrightarrow> of_char CHR ''>'' \<notin> set v"
    and "s = a @ m @ b"
  shows "\<forall>u v. m = u @ of_char CHR ''<'' # v \<longrightarrow> of_char CHR ''>'' \<notin> set v"
proof (intro allI impI)
  fix u v assume "m = u @ of_char CHR ''<'' # v"
  with assms(2) have "s = (a @ u) @ of_char CHR ''<'' # (v @ b)" by simp
  with assms(1) have "of_char CHR ''>'' \<notin> set (v @ b)" by blast
  then show "of_char CHR ''>'' \<notin> set v" by simp
qed

lemma set_tl_dropWhile: "set (tl (dropWhile P xs)) \<subseteq> set xs"
proof -
  have "set (tl ys) \<subseteq> set ys" for ys :: "'a list"
    by (cases ys) auto
  then have "set (tl (dropWhile P xs)) \<subseteq> set (dropWhile P xs)" .
  also have "\<dots> \<subseteq> set xs" by (auto dest: set_dropWhileD)
  finally show ?thesis .
qed

lemma length_tl_dropWhile: "length (tl (dropWhile P xs)) < Suc (length xs)"
  by (simp add: less_Suc_eq_le le_trans [OF diff_le_self length_dropWhile_le])

lemma set_strip_tags: "set (replace_all tag_regex [] s) \<subseteq> set s"
proof (induction "length s" arbitrary: s rule: less_induct)
  case less
  show ?case
  proof (cases s)
    case Nil
    then show ?thesis by (simp add: strip_tags_Nil)
  next
    case (Cons c cs)
    let ?t = "tl (dropWhile (\<lambda>c. c \<noteq> of_char CHR ''>'') cs)"
    have len: "length ?t < length s" using Cons length_tl_dropWhile [of _ cs] by simp
    have sub: "set ?t \<subseteq> set cs" by (rule set_tl_dropWhile)
    from less [OF len] sub have "set (replace_all tag_regex [] ?t) \<subseteq> set cs" by blast
    moreover have "set (replace_all tag_regex [] cs) \<subseteq> set cs"
      using less [of cs] Cons by simp
    ultimately show ?thesis unfolding Cons strip_tags_Cons by auto
  qed
qed

lemma strip_tags_tag_free:
  "\<forall>u v. replace_all tag_regex [] s = u @ of_char CHR ''<'' # v \<longrightarrow> of_char CHR ''>'' \<notin> set v"
proof (induction "length s" arbitrary: s rule: less_induct)
  case less
  show ?case
  proof (cases s)
    case Nil
    then show ?thesis by (simp add: strip_tags_Nil)
  next
    case (Cons c cs)
    let ?t = "tl (dropWhile (\<lambda>c. c \<noteq> of_char CHR ''>'') cs)"
    have len: "length ?t < length s" using Cons length_tl_dropWhile [of _ cs] by simp
    show ?thesis
    proof (cases "c = of_char CHR ''<'' \<and> of_char CHR ''>'' \<in> set cs")
      case True
      then have "replace_all tag_regex [] s = replace_all tag_regex [] ?t"
        unfolding Cons strip_tags_Cons by simp
      with less [OF len] show ?thesis by simp
    next
      case False
      then have eq: "replace_all tag_regex [] s = c # replace_all tag_regex [] cs"
        unfolding Cons strip_tags_Cons by auto
      have IH: "\<forall>u v. replace_all tag_regex [] cs = u @ of_char CHR ''<'' # v
                  \<longrightarrow> of_char CHR ''>'' \<notin> set v"
        using less [of cs] Cons by simp
      show ?thesis
      proof (intro allI impI)
        fix u v assume a: "replace_all tag_regex [] s = u @ of_char CHR ''<'' # v"
        show "of_char CHR ''>'' \<notin> set v"
        proof (cases u)
          case Nil
          with a eq have "c = of_char CHR ''<''" "v = replace_all tag_regex [] cs" by simp_all
          with False set_strip_tags [of cs] show ?thesis by blast
        next
          case (Cons d u')
          with a eq have "replace_all tag_regex [] cs = u' @ of_char CHR ''<'' # v" by simp
          with IH show ?thesis by blast
        qed
      qed
    qed
  qed
qed

lemma strip_tags_id:
  assumes "\<forall>u v. s = u @ of_char CHR ''<'' # v \<longrightarrow> of_char CHR ''>'' \<notin> set v"
  shows "replace_all tag_regex [] s = s"
  using assms
proof (induction s)
  case Nil
  show ?case by (simp add: strip_tags_Nil)
next
  case (Cons c cs)
  from Cons.prems have "c = of_char CHR ''<'' \<longrightarrow> of_char CHR ''>'' \<notin> set cs"
    by (metis append_Nil)
  moreover have "\<forall>u v. cs = u @ of_char CHR ''<'' # v \<longrightarrow> of_char CHR ''>'' \<notin> set v"
    using Cons.prems by (metis append_Cons)
  ultimately show ?case using Cons.IH by (auto simp add: strip_tags_Cons simp del: replace_all.simps)
qed

subsection \<open>\<open>sanitizeInput\<close> on the fallback sanitizer\<close>

lemma sanitizeInput_fallback_doc:
  assumes "dompurify_import env = None" "document_defined env"
  shows "sanitizeInput env (Str s) = trim s"
  using assms by (simp add: DOMPurify_sanitize_def fallback_sanitize_def trim_Nil)

lemma sanitizeInput_fallback_nodoc:
  assumes "dompurify_import env = None" "\<not> document_defined env"
  shows "sanitizeInput env (Str s) = trim (replace_all tag_regex [] s)"
  using assms
  by (simp add: DOMPurify_sanitize_def fallback_sanitize_def trim_Nil strip_tags_Nil
      del: replace_all.simps)

lemma trim_strip_tag_free:
  "\<forall>u v. trim (replace_all tag_regex [] s) = u @ of_char CHR ''<'' # v
     \<longrightarrow> of_char CHR ''>'' \<notin> set v"
proof -
  obtain a b where
    "replace_all tag_regex [] s = a @ trim (replace_all tag_regex [] s) @ b"
    using trim_infix by blast
  with strip_tags_tag_free [of s] show ?thesis by (rule tag_free_infix)
qed

lemma sanitizeInput_fallback_idem:
  assumes "dompurify_import env = None"
  shows "sanitizeInput env (Str (sanitizeInput env v)) = sanitizeInput env v"
proof (cases v)
  case (Str s)
  show ?thesis
  proof (cases "document_defined env")
    case True
    with assms show ?thesis unfolding Str
      by (simp only: sanitizeInput_fallback_doc trim_idem)
  next
    case False
    let ?out = "trim (replace_all tag_regex [] s)"
    have fx: "replace_all tag_regex [] ?out = ?out"
      using trim_strip_tag_free by (rule strip_tags_id)
    have e1: "sanitizeInput env (Str s) = ?out"
      using assms False by (rule sanitizeInput_fallback_nodoc)
    have e2: "sanitizeInput env (Str ?out) = trim (replace_all tag_regex [] ?out)"
      using assms False by (rule sanitizeInput_fallback_nodoc)
    show ?thesis unfolding Str e1 e2 fx trim_idem ..
  qed
next
  case Null
  then show ?thesis by simp
next
  case Undefined
  then show ?thesis by simp
qed

lemma sanitizeInput_trimmed: "trim (sanitizeInput env v) = sanitizeInput env v"
  by (cases v) (simp_all add: trim_idem trim_Nil)

lemma tag_free_dropWhile:
  "(\<forall>u w. (s :: jsstring) = u @ of_char CHR ''<'' # w \<longrightarrow> of_char CHR ''>'' \<notin> set w)
     \<longleftrightarrow> of_char CHR ''>'' \<notin> set (dropWhile (\<lambda>c. c \<noteq> of_char CHR ''<'') s)"
  (is "?A \<longleftrightarrow> ?B")
proof
  assume a: ?A
  let ?P = "\<lambda>c::jschar. c \<noteq> of_char CHR ''<''"
  show ?B
  proof (cases "dropWhile ?P s")
    case Nil
    show ?thesis unfolding Nil by simp
  next
    case (Cons d w)
    have "dropWhile ?P s \<noteq> []" unfolding Cons by simp
    then have "\<not> ?P (hd (dropWhile ?P s))" by (rule hd_dropWhile)
    with Cons have d: "d = of_char CHR ''<''" by simp
    have "s = takeWhile ?P s @ dropWhile ?P s" by simp
    then have "s = takeWhile ?P s @ of_char CHR ''<'' # w" unfolding Cons d .
    with a have "of_char CHR ''>'' \<notin> set w" by blast
    then show ?thesis unfolding Cons d by simp
  qed
next
  assume b: ?B
  show ?A
  proof (intro allI impI)
    fix u w assume s: "s = u @ of_char CHR ''<'' # w"
    have "set w \<subseteq> set (dropWhile (\<lambda>c. c \<noteq> of_char CHR ''<'') s)"
      unfolding s by (induction u) auto
    with b show "of_char CHR ''>'' \<notin> set w" by blast
  qed
qed

lemma sanitizeInput_fallback_tag_free:
  assumes "dompurify_import env = None"
    and "of_char CHR ''>'' \<notin> set (dropWhile (\<lambda>c. c \<noteq> of_char CHR ''<'') s)"
  shows "sanitizeInput env (Str s) = trim s"
proof (cases "document_defined env")
  case True
  with assms(1) show ?thesis by (rule sanitizeInput_fallback_doc)
next
  case False
  have "replace_all tag_regex [] s = s"
    using assms(2) tag_free_dropWhile [of s] strip_tags_id [of s] by blast
  with sanitizeInput_fallback_nodoc [OF assms(1) False, of s] show ?thesis by simp
qed

subsection \<open>The predicates in terms of the sanitized text\<close>

lemma sanitizeInput_falsy: "\<not> truthy v \<Longrightarrow> sanitizeInput env v = []"
  by (cases v) simp_all

lemma isValidName_iff:
  "isValidName env v \<longleftrightarrow>
     2 \<le> length (sanitizeInput env v) \<and> length (sanitizeInput env v) \<le> 100
     \<and> (\<forall>c \<in> set (sanitizeInput env v). name_char c)"
proof (cases "truthy v")
  case True
  then show ?thesis
    by (auto simp: isValidName_def Let_def sanitizeInput_trimmed nameRegex_def matches_Plus_Atom
        simp del: sanitizeInput.simps)
next
  case False
  then show ?thesis by (simp add: isValidName_def sanitizeInput_falsy)
qed

lemma sanitizeInput_builtin_trimmed: "trim (sanitizeInput_builtin v) = sanitizeInput_builtin v"
  by (cases v) (simp_all add: trim_idem trim_Nil Let_def del: replace_all.simps)

lemma isValidName_builtin_iff:
  "isValidName_builtin v \<longleftrightarrow>
     2 \<le> length (sanitizeInput_builtin v) \<and> length (sanitizeInput_builtin v) \<le> 100
     \<and> (\<forall>c \<in> set (sanitizeInput_builtin v). name_char c)"
  by (auto simp: isValidName_builtin_def Let_def sanitizeInput_builtin_trimmed nameRegex_def
      matches_Plus_Atom simp del: sanitizeInput_builtin.simps)

lemma validator_fallback: "validator_import env = None \<Longrightarrow> validator env = fallback_validator"
  by (simp add: validator_def)

lemma isValidMessage_iff:
  assumes "validator_import env = None"
  shows "isValidMessage env v \<longleftrightarrow>
     5 \<le> length (sanitizeInput env v) \<and> length (sanitizeInput env v) \<le> 5000"
proof (cases "truthy v")
  case True
  then show ?thesis
    by (simp add: isValidMessage_def Let_def sanitizeInput_trimmed validator_fallback [OF assms]
        fallback_validator_def fallback_isLength_def del: sanitizeInput.simps)
next
  case False
  then show ?thesis by (simp add: isValidMessage_def sanitizeInput_falsy)
qed

lemma conc_iff: "w \<in> conc A B \<longleftrightarrow> (\<exists>u v. w = u @ v \<and> u \<in> A \<and> v \<in> B)"
  by (auto simp: conc_def)

lemma conc_single: "w \<in> conc {[c]} B \<longleftrightarrow> (\<exists>v. w = c # v \<and> v \<in> B)"
  by (auto simp: conc_def)

lemma matches_email_regex:
  "matches email_regex s \<longleftrightarrow>
     (\<exists>a b c. s = a @ of_char CHR ''@'' # b @ of_char CHR ''.'' # c
        \<and> a \<noteq> [] \<and> b \<noteq> [] \<and> c \<noteq> []
        \<and> (\<forall>x \<in> set a. not_ws_at x) \<and> (\<forall>x \<in> set b. not_ws_at x) \<and> (\<forall>x \<in> set c. not_ws_at x))"
  (is "?L \<longleftrightarrow> ?R")
proof -
  let ?A = "{w. w \<noteq> [] \<and> (\<forall>c \<in> set w. not_ws_at c)}"
  let ?E = "conc ?A (conc {[of_char CHR ''@'']} (conc ?A (conc {[of_char CHR ''.'']} ?A)))"
  have lang: "?L \<longleftrightarrow> s \<in> ?E"
    unfolding matches_lang email_regex_def lang.simps lang_Plus_Atom lang_Chr ..
  have "s \<in> ?E \<longleftrightarrow> ?R"
  proof
    assume "s \<in> ?E"
    from conc_iff [THEN iffD1, OF this] obtain a v where
      1: "s = a @ v" "a \<in> ?A" "v \<in> conc {[of_char CHR ''@'']} (conc ?A (conc {[of_char CHR ''.'']} ?A))"
      by blast
    from conc_single [THEN iffD1, OF 1(3)] obtain v' where
      2: "v = of_char CHR ''@'' # v'" "v' \<in> conc ?A (conc {[of_char CHR ''.'']} ?A)"
      by blast
    from conc_iff [THEN iffD1, OF 2(2)] obtain b v'' where
      3: "v' = b @ v''" "b \<in> ?A" "v'' \<in> conc {[of_char CHR ''.'']} ?A"
      by blast
    from conc_single [THEN iffD1, OF 3(3)] obtain c where
      4: "v'' = of_char CHR ''.'' # c" "c \<in> ?A"
      by blast
    have "s = a @ of_char CHR ''@'' # b @ of_char CHR ''.'' # c"
      unfolding 1(1) 2(1) 3(1) 4(1) ..
    with 1(2) 3(2) 4(2) show ?R by blast
  next
    assume ?R
    then obtain a b c where s: "s = a @ of_char CHR ''@'' # b @ of_char CHR ''.'' # c"
      and m: "a \<in> ?A" "b \<in> ?A" "c \<in> ?A" by blast
    have "of_char CHR ''.'' # c \<in> conc {[of_char CHR ''.'']} ?A"
      using m(3) conc_single by blast
    with m(2) have "b @ of_char CHR ''.'' # c \<in> conc ?A (conc {[of_char CHR ''.'']} ?A)"
      using conc_iff by blast
    then have "of_char CHR ''@'' # b @ of_char CHR ''.'' # c
        \<in> conc {[of_char CHR ''@'']} (conc ?A (conc {[of_char CHR ''.'']} ?A))"
      using conc_single by blast
    with m(1) show "s \<in> ?E" unfolding s using conc_iff by blast
  qed
  with lang show ?thesis by (rule trans)
qed

lemma isValidEmail_iff:
  assumes "validator_import env = None"
  shows "isValidEmail env v \<longleftrightarrow> matches email_regex (sanitizeInput env v)"
proof (cases "truthy v")
  case True
  then show ?thesis
    by (simp add: isValidEmail_def Let_def sanitizeInput_trimmed validator_fallback [OF assms]
        fallback_validator_def del: sanitizeInput.simps)
next
  case False
  have "\<not> matches email_regex []" by code_simp
  with False show ?thesis by (simp add: isValidEmail_def sanitizeInput_falsy)
qed

lemma sanitizeInput_plain:
  assumes "dompurify_import env = None"
    and "of_char CHR ''<'' \<notin> set s"
    and "s = [] \<or> (\<not> is_ws (hd s) \<and> \<not> is_ws (last s))"
  shows "sanitizeInput env (Str s) = s"
proof -
  have "dropWhile (\<lambda>c. c \<noteq> of_char CHR ''<'') s = []" using assms(2) by auto
  then have "of_char CHR ''>'' \<notin> set (dropWhile (\<lambda>c. c \<noteq> of_char CHR ''<'') s)"
    by (simp only: list.set empty_iff not_False_eq_True)
  with assms(1) have "sanitizeInput env (Str s) = trim s"
    by (rule sanitizeInput_fallback_tag_free)
  with trim_fixed [OF assms(3)] show ?thesis by simp
qed

subsection \<open>Character maps that patterns cannot observe\<close>

lemma deriv_preserves_classes:
  "preserves_classes f r \<Longrightarrow> deriv (f c) r = deriv c r \<and> preserves_classes f (deriv c r)"
  by (induction r) auto

lemma matches_map: "preserves_classes f r \<Longrightarrow> matches r (map f s) = matches r s"
proof (induction s arbitrary: r)
  case Nil
  show ?case by simp
next
  case (Cons c s)
  from Cons.prems have "deriv (f c) r = deriv c r" "preserves_classes f (deriv c r)"
    using deriv_preserves_classes by blast+
  with Cons.IH [of "deriv c r"] show ?case by simp
qed

lemma strip_tags_map:
  assumes lt: "\<And>c. f c = of_char CHR ''<'' \<longleftrightarrow> c = of_char CHR ''<''"
    and gt: "\<And>c. f c = of_char CHR ''>'' \<longleftrightarrow> c = of_char CHR ''>''"
  shows "replace_all tag_regex [] (map f s) = map f (replace_all tag_regex [] s)"
proof (induction "length s" arbitrary: s rule: less_induct)
  case less
  show ?case
  proof (cases s)
    case Nil
    then show ?thesis by (simp add: strip_tags_Nil del: replace_all.simps)
  next
    case (Cons c cs)
    let ?P = "\<lambda>c::jschar. c \<noteq> of_char CHR ''>''"
    let ?t = "tl (dropWhile ?P cs)"
    have len: "length ?t < length s" using Cons length_tl_dropWhile [of _ cs] by simp
    have comp: "?P \<circ> f = ?P" using gt by (simp add: fun_eq_iff)
    have mem: "of_char CHR ''>'' \<in> set (map f cs) \<longleftrightarrow> of_char CHR ''>'' \<in> set cs"
      using gt by (auto simp: image_iff)
    have drop: "tl (dropWhile ?P (map f cs)) = map f ?t"
      unfolding dropWhile_map comp map_tl ..
    have IH1: "replace_all tag_regex [] (map f ?t) = map f (replace_all tag_regex [] ?t)"
      using less [OF len] .
    have IH2: "replace_all tag_regex [] (map f cs) = map f (replace_all tag_regex [] cs)"
      using less [of cs] Cons by simp
    show ?thesis
      unfolding Cons list.map strip_tags_Cons mem lt drop IH1 IH2 by simp
  qed
qed

lemma sanitizeInput_fallback_map:
  assumes "dompurify_import env = None"
    and ws: "\<And>c. is_ws (f c) = is_ws c"
    and lt: "\<And>c. f c = of_char CHR ''<'' \<longleftrightarrow> c = of_char CHR ''<''"
    and gt: "\<And>c. f c = of_char CHR ''>'' \<longleftrightarrow> c = of_char CHR ''>''"
  shows "sanitizeInput env (Str (map f s)) = map f (sanitizeInput env (Str s))"
proof (cases "document_defined env")
  case True
  show ?thesis
    unfolding sanitizeInput_fallback_doc [OF assms(1) True] using ws by (rule trim_map)
next
  case False
  show ?thesis
    unfolding sanitizeInput_fallback_nodoc [OF assms(1) False] strip_tags_map [of f, OF lt gt]
    using ws by (rule trim_map)
qed

subsection \<open>Changing the case of ASCII letters\<close>

lemma lower_shift: "is_lower c \<Longrightarrow> is_upper (c - 0x20)"
  unfolding is_lower_def is_upper_def by unat_arith

lemma upper_shift: "is_upper c \<Longrightarrow> is_lower (c + 0x20)"
  unfolding is_lower_def is_upper_def by unat_arith auto

lemma lower_not_ws: "is_lower c \<Longrightarrow> \<not> is_ws c"
  unfolding is_lower_def is_ws_def by unat_arith

lemma upper_not_ws: "is_upper c \<Longrightarrow> \<not> is_ws c"
  unfolding is_upper_def is_ws_def by unat_arith

lemma upper_not_special:
  "is_upper c \<Longrightarrow> c \<noteq> 0x40 \<and> c \<noteq> 0x2E \<and> c \<noteq> 0x3C \<and> c \<noteq> 0x3E"
  unfolding is_upper_def by unat_arith

lemma lower_not_special:
  "is_lower c \<Longrightarrow> c \<noteq> 0x40 \<and> c \<noteq> 0x2E \<and> c \<noteq> 0x3C \<and> c \<noteq> 0x3E"
  unfolding is_lower_def by unat_arith

lemma ascii_upper_ws: "is_ws (ascii_upper c) = is_ws c"
  using lower_shift [of c] lower_not_ws [of c] upper_not_ws [of "c - 0x20"]
  by (auto simp: ascii_upper_def)

lemma ascii_lower_ws: "is_ws (ascii_lower c) = is_ws c"
  using upper_shift [of c] upper_not_ws [of c] lower_not_ws [of "c + 0x20"]
  by (auto simp: ascii_lower_def)

lemma ascii_upper_special:
  assumes "k = 0x40 \<or> k = 0x2E \<or> k = 0x3C \<or> k = 0x3E"
  shows "ascii_upper c = k \<longleftrightarrow> c = k"
  using assms lower_shift [of c] lower_not_special [of c] upper_not_special [of "c - 0x20"]
  by (auto simp: ascii_upper_def)

lemma ascii_lower_special:
  assumes "k = 0x40 \<or> k = 0x2E \<or> k = 0x3C \<or> k = 0x3E"
  shows "ascii_lower c = k \<longleftrightarrow> c = k"
  using assms upper_shift [of c] upper_not_special [of c] lower_not_special [of "c + 0x20"]
  by (auto simp: ascii_lower_def)

lemma preserves_classes_email:
  assumes "\<And>c. is_ws (f c) = is_ws c"
    and "\<And>c. f c = 0x40 \<longleftrightarrow> c = 0x40" and "\<And>c. f c = 0x2E \<longleftrightarrow> c = 0x2E"
  shows "preserves_classes f email_regex"
  using assms by (simp add: email_regex_def Plus_def Chr_def not_ws_at_def)

lemma isValidEmail_map:
  assumes "validator_import env = None" "dompurify_import env = None"
    and ws: "\<And>c. is_ws (f c) = is_ws c"
    and sp: "\<And>c k. k = 0x40 \<or> k = 0x2E \<or> k = 0x3C \<or> k = 0x3E \<Longrightarrow> f c = k \<longleftrightarrow> c = k"
  shows "isValidEmail env (Str (map f s)) = isValidEmail env (Str s)"
proof -
  have "sanitizeInput env (Str (map f s)) = map f (sanitizeInput env (Str s))"
    using assms(2) ws by (rule sanitizeInput_fallback_map) (simp_all add: sp)
  moreover have "preserves_classes f email_regex"
    using ws by (rule preserves_classes_email) (simp_all add: sp)
  ultimately show ?thesis
    unfolding isValidEmail_iff [OF assms(1)] by (simp only: matches_map)
qed

subsection \<open>Observations of the form controller\<close>

lemma requests_append: "requests (xs @ ys) = requests xs @ requests ys"
  by (induction xs rule: requests.induct) simp_all

lemma dialogs_append: "dialogs (xs @ ys) = dialogs xs @ dialogs ys"
  by (induction xs rule: dialogs.induct) simp_all

lemma collect_errors_valid:
  assumes "name \<noteq> []" "isValidName env (Str name)" "email \<noteq> []" "isValidEmail env (Str email)"
    "phone = [] \<or> isValidPhone env (Str phone)" "message \<noteq> []" "isValidMessage env (Str message)"
  shows "collect_errors env name email phone message st = (st, [])"
  using assms by (auto simp: collect_errors_def)

lemma collect_errors_invalid:
  assumes "\<not> (name \<noteq> [] \<and> isValidName env (Str name) \<and> email \<noteq> [] \<and> isValidEmail env (Str email)
    \<and> (phone = [] \<or> isValidPhone env (Str phone)) \<and> message \<noteq> [] \<and> isValidMessage env (Str message))"
  shows "snd (collect_errors env name email phone message st) \<noteq> []"
  using assms by (auto simp: collect_errors_def add_error_def Let_def split: prod.splits)

lemma collect_errors_frame:
  "events (fst (collect_errors env name email phone message st)) = events st
   \<and> website (fst (collect_errors env name email phone message st)) = website st
   \<and> error_modal (fst (collect_errors env name email phone message st)) = error_modal st
   \<and> submit_disabled (fst (collect_errors env name email phone message st)) = submit_disabled st
   \<and> submit_innerHTML (fst (collect_errors env name email phone message st)) = submit_innerHTML st"
  by (simp add: collect_errors_def add_error_def Let_def split: prod.splits)

lemma collect_errors_builtin_valid:
  assumes "name \<noteq> []" "isValidName_builtin (Str name)" "email \<noteq> []"
    "isValidEmail_builtin lc (Str email)"
    "phone = [] \<or> isValidPhone_builtin (Str phone)" "message \<noteq> []"
    "isValidMessage_builtin (Str message)"
  shows "collect_errors_builtin lc name email phone message st = (st, [])"
  using assms by (auto simp: collect_errors_builtin_def)

lemma submitForm_requests:
  "requests (events (submitForm formData outcome r st)) =
     requests (events st) @
       [\<lparr> url = API_ENDPOINT, http_method = ''POST'',
          headers = [(''Content-Type'', ''application/json'')], body = formData \<rparr>]"
  by (simp add: submitForm_def submit_catch_def enable_submit_def showErrorModal_def
      showSuccessModal_def emit_def requests_append Let_def
      split: fetch_outcome.splits json_body.splits)

lemma submitForm_button:
  "submit_disabled (submitForm formData outcome r st) = False
   \<and> submit_innerHTML (submitForm formData outcome r st) = js ''Submit''"
  by (simp add: submitForm_def submit_catch_def enable_submit_def Let_def
      split: fetch_outcome.splits json_body.splits)

subsection \<open>Patterns of one character class\<close>

lemma longest_match_Atom:
  "longest_match (Atom p) (c # cs) = (if p c then Some (Suc 0) else None)"
proof -
  have pre: "(k \<le> length (c # cs) \<and> take k (c # cs) \<in> lang (Atom p)) = (p c \<and> k = Suc 0)" for k
    by (cases k) (auto simp: take_Suc_Cons)
  show ?thesis
  proof (cases "p c")
    case True
    have 1: "Suc 0 \<le> length (c # cs)" "take (Suc 0) (c # cs) \<in> lang (Atom p)"
      using True pre [of "Suc 0"] by simp_all
    have 2: "j \<le> Suc 0" if "j \<le> length (c # cs)" "take j (c # cs) \<in> lang (Atom p)" for j
      using pre [of j] that by simp
    have "longest_match (Atom p) (c # cs) = Some (Suc 0)"
      unfolding longest_match_Some using 1 2 by (intro conjI allI impI)
    with True show ?thesis by simp
  next
    case False
    have "longest_match (Atom p) (c # cs) = None"
      unfolding longest_match_None using pre False by blast
    with False show ?thesis by simp
  qed
qed

lemma replace_all_Atom:
  "replace_all (Atom p) rep s = concat (map (\<lambda>c. if p c then rep else [c]) s)"
  by (induction s) (simp_all add: longest_match_Atom)

lemma replace_all_Chr:
  "replace_all (Chr k) rep s = concat (map (\<lambda>c. if c = of_char k then rep else [c]) s)"
  unfolding Chr_def by (rule replace_all_Atom)

lemma digits_only: "replace_all (Atom (\<lambda>c. \<not> is_digit c)) [] s = filter is_digit s"
  unfolding replace_all_Atom by (induction s) simp_all

lemma witty_index: "unat (r :: 3 word) < length wittyErrorMessages"
proof -
  have "unat r < 2 ^ LENGTH(3)" by (rule unsigned_less)
  then show ?thesis by (simp add: wittyErrorMessages_def)
qed

subsection \<open>A position has at most one match of a replaced pattern\<close>

text \<open>
  Each of the three longer patterns ends in a character that occurs nowhere else in a
  match, so of two matches starting at the same position neither is a proper prefix of the
  other: the longest match is the only one.
\<close>

lemma end_marker_unique:
  assumes L: "\<And>w. w \<in> L \<Longrightarrow> \<exists>x. w = x @ [k] \<and> k \<notin> set x"
    and u: "u \<in> L" and uz: "u @ z \<in> L"
  shows "z = []"
proof (rule ccontr)
  assume "z \<noteq> []"
  then obtain z' l where z: "z = z' @ [l]" by (cases z rule: rev_cases) auto
  from L [OF u] obtain x where x: "u = x @ [k]" by blast
  from L [OF uz] obtain y where y: "u @ z = y @ [k]" "k \<notin> set y" by blast
  from y(1) have "(x @ k # z') @ [l] = y @ [k]" unfolding x z by simp
  then have "y = x @ k # z'" by (simp only: append1_eq_conv)
  with y(2) show False by simp
qed

lemma end_marker_Seq:
  assumes a: "\<And>u. u \<in> lang a \<Longrightarrow> k \<notin> set u"
    and r: "\<And>v. v \<in> lang r \<Longrightarrow> \<exists>x. v = x @ [k] \<and> k \<notin> set x"
    and w: "w \<in> lang (Seq a r)"
  shows "\<exists>x. w = x @ [k] \<and> k \<notin> set x"
proof -
  from w obtain u v where uv: "w = u @ v" "u \<in> lang a" "v \<in> lang r"
    by (auto simp: conc_iff)
  from r [OF uv(3)] obtain x where x: "v = x @ [k]" "k \<notin> set x" by blast
  from a [OF uv(2)] x have "w = (u @ x) @ [k]" "k \<notin> set (u @ x)" unfolding uv(1) by simp_all
  then show ?thesis by blast
qed

lemma end_marker_Chr:
  assumes "w \<in> lang (Chr c)"
  shows "\<exists>x. w = x @ [of_char c] \<and> of_char c \<notin> set x"
  using assms by (simp add: lang_Chr)

lemma ci_free:
  assumes "u \<in> lang (ci c)" and "of_char c \<noteq> k" and "of_char c \<noteq> k + 0x20"
  shows "k \<notin> set u"
  using assms by (auto simp: ci_def)

lemma atoms_free:
  assumes "\<not> p k"
  shows "u \<in> lang (Atom p) \<Longrightarrow> k \<notin> set u"
    and "u \<in> lang (Plus (Atom p)) \<Longrightarrow> k \<notin> set u"
    and "u \<in> lang (Star (Atom p)) \<Longrightarrow> k \<notin> set u"
  using assms by (auto simp: lang_Plus_Atom star_atoms)

lemma tag_end_marker:
  "w \<in> lang tag_regex \<Longrightarrow> \<exists>x. w = x @ [of_char CHR ''>''] \<and> of_char CHR ''>'' \<notin> set x"
proof -
  assume "w \<in> lang tag_regex"
  then obtain x where x: "w = of_char CHR ''<'' # x @ [of_char CHR ''>'']"
    "of_char CHR ''>'' \<notin> set x"
    unfolding lang_tag_regex by blast
  then have "w = (of_char CHR ''<'' # x) @ [of_char CHR ''>'']"
    "of_char CHR ''>'' \<notin> set (of_char CHR ''<'' # x)" by simp_all
  then show ?thesis by blast
qed

lemma javascript_end_marker:
  "w \<in> lang javascript_regex \<Longrightarrow> \<exists>x. w = x @ [of_char CHR '':''] \<and> of_char CHR '':'' \<notin> set x"
  unfolding javascript_regex_def Seqs.simps
  by (erule end_marker_Seq [rotated 2], erule ci_free, simp, simp)+ (rule end_marker_Chr)

lemma handler_end_marker:
  "w \<in> lang handler_regex \<Longrightarrow> \<exists>x. w = x @ [of_char CHR ''=''] \<and> of_char CHR ''='' \<notin> set x"
  unfolding handler_regex_def Seqs.simps
  apply (erule end_marker_Seq [rotated 2], erule ci_free, simp, simp)
  apply (erule end_marker_Seq [rotated 2], erule ci_free, simp, simp)
  apply (erule end_marker_Seq [rotated 2], erule atoms_free(2) [rotated],
      simp add: is_word_def is_lower_def is_upper_def is_digit_def)
  apply (erule end_marker_Seq [rotated 2], erule atoms_free(3) [rotated],
      simp add: is_ws_def)
  apply (erule end_marker_Chr)
  done

lemma replaced_patterns_unique:
  assumes "r = tag_regex \<or> r = javascript_regex \<or> r = handler_regex"
    and "u \<in> lang r" and "u @ z \<in> lang r"
  shows "z = []"
proof -
  from assms(1) consider "r = tag_regex" | "r = javascript_regex" | "r = handler_regex" by blast
  then show ?thesis
  proof cases
    case 1
    show ?thesis using tag_end_marker assms(2,3) unfolding 1 by (rule end_marker_unique)
  next
    case 2
    show ?thesis using javascript_end_marker assms(2,3) unfolding 2 by (rule end_marker_unique)
  next
    case 3
    show ?thesis using handler_end_marker assms(2,3) unfolding 3 by (rule end_marker_unique)
  qed
qed

section \<open>The claims of the specification\<close>

subsection \<open>A concrete run used below\<close>

lemma run_bare_strip: "sanitizeInput bare_env (Str (js ''<b>x<y'')) = js ''x'' @ of_char CHR ''<'' # js ''y''"
  by code_simp

subsection \<open>C1\<close>

text \<open>
  C1, as amended. The claim that no \<open><\<close> and no \<open>>\<close> survives \<open>sanitizeInput\<close> does not hold
  for the sanitizer the module builds itself when the DOMPurify import fails. What that
  sanitizer guarantees: without a document every complete tag \<open><\<dots>>\<close> is deleted, so in the
  result no \<open><\<close> is followed by a \<open>>\<close> (a lone delimiter may stay); with a document the
  result is the input as text, only trimmed.
\<close>

theorem sanitizeInput_fallback_tags:
  assumes "dompurify_import env = None"
  shows "(\<not> document_defined env \<longrightarrow>
            (\<forall>u w. sanitizeInput env v = u @ of_char CHR ''<'' # w \<longrightarrow> of_char CHR ''>'' \<notin> set w))
       \<and> (document_defined env \<longrightarrow> (\<forall>s. v = Str s \<longrightarrow> sanitizeInput env v = trim s))"
proof (intro conjI impI allI)
  fix u w
  assume nodoc: "\<not> document_defined env"
    and out: "sanitizeInput env v = u @ of_char CHR ''<'' # w"
  show "of_char CHR ''>'' \<notin> set w"
  proof (cases v)
    case (Str s)
    have "sanitizeInput env v = trim (replace_all tag_regex [] s)"
      unfolding Str using assms nodoc by (rule sanitizeInput_fallback_nodoc)
    with out have "trim (replace_all tag_regex [] s) = u @ of_char CHR ''<'' # w"
      by simp
    with trim_strip_tag_free show ?thesis by blast
  next
    case Null
    with out show ?thesis by simp
  next
    case Undefined
    with out show ?thesis by simp
  qed
next
  fix s assume doc: "document_defined env" and v: "v = Str s"
  show "sanitizeInput env v = trim s"
    unfolding v using assms doc by (rule sanitizeInput_fallback_doc)
qed

theorem sanitizeInput_fallback_tags_witness:
  "dompurify_import bare_env = None \<and> \<not> document_defined bare_env
   \<and> sanitizeInput bare_env (Str (js ''<b>x<y'')) = js ''x'' @ of_char CHR ''<'' # js ''y''
   \<and> of_char CHR ''>'' \<notin> set (js ''y'')
   \<and> dompurify_import browser_env = None \<and> document_defined browser_env
   \<and> sanitizeInput browser_env (Str (js '' <b>hi</b> '')) = trim (js '' <b>hi</b> '')"
proof -
  have b: "dompurify_import bare_env = None" "\<not> document_defined bare_env"
    by (simp_all add: bare_env_def)
  have d: "dompurify_import browser_env = None" "document_defined browser_env"
    by (simp_all add: browser_env_def)
  from sanitizeInput_fallback_tags [OF b(1), of "Str (js ''<b>x<y'')"] b(2) run_bare_strip
  have "of_char CHR ''>'' \<notin> set (js ''y'')" by blast
  moreover from sanitizeInput_fallback_tags [OF d(1), of "Str (js '' <b>hi</b> '')"] d(2)
  have "sanitizeInput browser_env (Str (js '' <b>hi</b> '')) = trim (js '' <b>hi</b> '')"
    by blast
  ultimately show ?thesis using b d run_bare_strip by blast
qed

text \<open>
  C1 as stated fails: in a browser without the package, the markup of \<open><b>hi</b>\<close> comes
  back unchanged; without a document, the lone \<open>>\<close> of \<open>a > b\<close> is no tag and stays.
\<close>

theorem sanitizeInput_keeps_delimiters:
  "of_char CHR ''<'' \<in> set (js ''<b>hi</b>'')
   \<and> sanitizeInput browser_env (Str (js ''<b>hi</b>'')) = js ''<b>hi</b>''
   \<and> of_char CHR ''<'' \<in> set (sanitizeInput browser_env (Str (js ''<b>hi</b>'')))
   \<and> of_char CHR ''>'' \<in> set (sanitizeInput browser_env (Str (js ''<b>hi</b>'')))
   \<and> of_char CHR ''>'' \<in> set (js ''a > b'')
   \<and> sanitizeInput bare_env (Str (js ''a > b'')) = js ''a > b''
   \<and> of_char CHR ''>'' \<in> set (sanitizeInput bare_env (Str (js ''a > b'')))"
  by code_simp

subsection \<open>C3\<close>

lemma validator_document_update: "validator (env\<lparr> document_defined := d \<rparr>) = validator env"
  by (simp add: validator_def)

text \<open>
  C3, as amended. The helpers do consult the document: the built-in sanitizer branches
  on \<open>typeof document\<close>. With the built-in sanitizer the answer is the same with and
  without a document for every input in which no \<open>>\<close> comes after the first \<open><\<close> (and for
  \<open>null\<close> and \<open>undefined\<close>): \<open>sanitizeInput\<close> and the four predicates return what they
  return when \<open>document_defined\<close> is set to any value \<open>d\<close>.
\<close>

theorem helpers_same_without_tags:
  assumes "dompurify_import env = None"
    and "\<And>s. v = Str s \<Longrightarrow>
           of_char CHR ''>'' \<notin> set (dropWhile (\<lambda>c. c \<noteq> of_char CHR ''<'') s)"
  shows "sanitizeInput (env\<lparr> document_defined := d \<rparr>) v = sanitizeInput env v
       \<and> isValidName (env\<lparr> document_defined := d \<rparr>) v = isValidName env v
       \<and> isValidEmail (env\<lparr> document_defined := d \<rparr>) v = isValidEmail env v
       \<and> isValidPhone (env\<lparr> document_defined := d \<rparr>) v = isValidPhone env v
       \<and> isValidMessage (env\<lparr> document_defined := d \<rparr>) v = isValidMessage env v"
proof -
  have same: "sanitizeInput (env\<lparr> document_defined := d \<rparr>) v = sanitizeInput env v"
  proof (cases v)
    case (Str s)
    then have free: "of_char CHR ''>'' \<notin> set (dropWhile (\<lambda>c. c \<noteq> of_char CHR ''<'') s)"
      by (rule assms(2))
    have "dompurify_import (env\<lparr> document_defined := d \<rparr>) = None"
      using assms(1) by simp
    then have "sanitizeInput (env\<lparr> document_defined := d \<rparr>) (Str s) = trim s"
      using free by (rule sanitizeInput_fallback_tag_free)
    moreover have "sanitizeInput env (Str s) = trim s"
      using assms(1) free by (rule sanitizeInput_fallback_tag_free)
    ultimately show ?thesis unfolding Str by simp
  next
    case Null
    then show ?thesis by simp
  next
    case Undefined
    then show ?thesis by simp
  qed
  show ?thesis
    unfolding isValidName_def isValidEmail_def isValidPhone_def isValidMessage_def
      same validator_document_update
    by simp
qed

theorem helpers_same_without_tags_witness:
  "dompurify_import bare_env = None
   \<and> of_char CHR ''>'' \<notin> set (dropWhile (\<lambda>c. c \<noteq> of_char CHR ''<'') (js ''a > b''))
   \<and> sanitizeInput (bare_env\<lparr> document_defined := True \<rparr>) (Str (js ''a > b''))
       = sanitizeInput bare_env (Str (js ''a > b''))
   \<and> isValidName (bare_env\<lparr> document_defined := True \<rparr>) (Str (js ''a > b''))
       = isValidName bare_env (Str (js ''a > b''))
   \<and> isValidEmail (bare_env\<lparr> document_defined := True \<rparr>) (Str (js ''a > b''))
       = isValidEmail bare_env (Str (js ''a > b''))
   \<and> isValidPhone (bare_env\<lparr> document_defined := True \<rparr>) (Str (js ''a > b''))
       = isValidPhone bare_env (Str (js ''a > b''))
   \<and> isValidMessage (bare_env\<lparr> document_defined := True \<rparr>) (Str (js ''a > b''))
       = isValidMessage bare_env (Str (js ''a > b''))"
proof -
  have h1: "dompurify_import bare_env = None" by (simp add: bare_env_def)
  have h2: "of_char CHR ''>'' \<notin> set (dropWhile (\<lambda>c. c \<noteq> of_char CHR ''<'') (js ''a > b''))"
    by (simp add: js_def)
  have h3: "of_char CHR ''>'' \<notin> set (dropWhile (\<lambda>c. c \<noteq> of_char CHR ''<'') s)"
    if "Str (js ''a > b'') = Str s" for s
    using that h2 by simp
  from helpers_same_without_tags [OF h1 h3, where d = True] h1 h2 show ?thesis by blast
qed

text \<open>
  C3 as stated fails: for \<open><b>hi</b>\<close> the built-in sanitizer returns the markup when a
  document exists and the bare text when none does, and \<open>isValidName\<close> follows it.
\<close>

theorem sanitizeInput_depends_on_document:
  "sanitizeInput browser_env (Str (js ''<b>hi</b>'')) = js ''<b>hi</b>''
   \<and> sanitizeInput bare_env (Str (js ''<b>hi</b>'')) = js ''hi''
   \<and> sanitizeInput browser_env (Str (js ''<b>hi</b>''))
       \<noteq> sanitizeInput bare_env (Str (js ''<b>hi</b>''))
   \<and> \<not> isValidName browser_env (Str (js ''<b>hi</b>''))
   \<and> isValidName bare_env (Str (js ''<b>hi</b>''))"
  by code_simp

subsection \<open>C10\<close>

text \<open>
  C10, as amended. \<open>sanitizeInput\<close> of the helper module is idempotent when it runs on the
  built-in sanitizer, with or without a document: sanitizing a sanitized value again
  returns it unchanged. (The \<open>sanitizeInput\<close> that the CSRF variant of the controller
  defines for itself is not: see the counterexample.)
\<close>

theorem sanitizeInput_fallback_idempotent:
  assumes "dompurify_import env = None"
  shows "sanitizeInput env (Str (sanitizeInput env v)) = sanitizeInput env v"
  using assms by (rule sanitizeInput_fallback_idem)

theorem sanitizeInput_fallback_idempotent_witness:
  "dompurify_import bare_env = None
   \<and> sanitizeInput bare_env (Str (sanitizeInput bare_env (Str (js ''<b>x<y''))))
       = sanitizeInput bare_env (Str (js ''<b>x<y''))"
proof -
  have h: "dompurify_import bare_env = None" by (simp add: bare_env_def)
  from sanitizeInput_fallback_idempotent [OF h, of "Str (js ''<b>x<y'')"] h
  show ?thesis by blast
qed

text \<open>
  C10 as stated fails for the controller variant with built-in validators: its
  \<open>sanitizeInput\<close> writes \<open>&\<close> as \<open>&amp;\<close>, and a second pass encodes that ampersand again.
\<close>

theorem sanitizeInput_builtin_not_idempotent:
  "sanitizeInput_builtin (Str (js ''&'')) = js ''&amp;''
   \<and> sanitizeInput_builtin (Str (sanitizeInput_builtin (Str (js ''&'')))) = js ''&amp;amp;''
   \<and> sanitizeInput_builtin (Str (sanitizeInput_builtin (Str (js ''&''))))
       \<noteq> sanitizeInput_builtin (Str (js ''&''))"
  by code_simp

subsection \<open>C6\<close>

lemma plain_Jean: "sanitizeInput env (Str (js ''Jean-Claude Van Damme'')) = js ''Jean-Claude Van Damme''"
  if "dompurify_import env = None"
  using that by (rule sanitizeInput_plain) (simp_all add: js_def is_ws_def)

lemma plain_A: "sanitizeInput env (Str (js ''A'')) = js ''A''"
  if "dompurify_import env = None"
  using that by (rule sanitizeInput_plain) (simp_all add: js_def is_ws_def)

lemma name_char_Jean: "\<forall>c \<in> set (js ''Jean-Claude Van Damme''). name_char c"
  by (simp add: js_def name_char_def is_lower_def is_upper_def is_ws_def)

lemma builtin_names:
  "\<not> isValidName_builtin (Str (js ''A''))"
  "isValidName_builtin (Str (js ''Jean-Claude Van Damme''))"
  "\<not> isValidName_builtin Null" "\<not> isValidName_builtin (Str [])"
  by code_simp+

text \<open>
  C6, as amended. For every input, \<open>isValidName\<close> returns true exactly when the sanitized
  input has between 2 and 100 code units and each of them is a letter \<open>a\<close> to \<open>z\<close> or \<open>A\<close> to
  \<open>Z\<close>, a white-space character of the class \<open>\s\<close> (space, tab, line breaks, no-break space
  and the other Unicode spaces), a hyphen or an apostrophe. This holds for the helper
  module in every loading environment and for the predicate the CSRF variant defines.
  \<open>null\<close> and the empty string are invalid; with the built-in sanitizer \<open>A\<close> is invalid and
  \<open>Jean-Claude Van Damme\<close> is valid.
\<close>

theorem isValidName_exact:
  "(isValidName env v \<longleftrightarrow>
      2 \<le> length (sanitizeInput env v) \<and> length (sanitizeInput env v) \<le> 100
      \<and> (\<forall>c \<in> set (sanitizeInput env v).
            is_lower c \<or> is_upper c \<or> is_ws c \<or> c = of_char CHR ''-'' \<or> c = 0x27))
   \<and> (isValidName_builtin v \<longleftrightarrow>
      2 \<le> length (sanitizeInput_builtin v) \<and> length (sanitizeInput_builtin v) \<le> 100
      \<and> (\<forall>c \<in> set (sanitizeInput_builtin v).
            is_lower c \<or> is_upper c \<or> is_ws c \<or> c = of_char CHR ''-'' \<or> c = 0x27))
   \<and> \<not> isValidName env Null \<and> \<not> isValidName env (Str [])
   \<and> \<not> isValidName_builtin Null \<and> \<not> isValidName_builtin (Str [])
   \<and> (dompurify_import env = None \<longrightarrow>
         \<not> isValidName env (Str (js ''A''))
         \<and> isValidName env (Str (js ''Jean-Claude Van Damme'')))
   \<and> \<not> isValidName_builtin (Str (js ''A''))
   \<and> isValidName_builtin (Str (js ''Jean-Claude Van Damme''))"
proof -
  have 1: "isValidName env v \<longleftrightarrow>
      2 \<le> length (sanitizeInput env v) \<and> length (sanitizeInput env v) \<le> 100
      \<and> (\<forall>c \<in> set (sanitizeInput env v).
            is_lower c \<or> is_upper c \<or> is_ws c \<or> c = of_char CHR ''-'' \<or> c = 0x27)"
    unfolding isValidName_iff name_char_def ..
  have 2: "isValidName_builtin v \<longleftrightarrow>
      2 \<le> length (sanitizeInput_builtin v) \<and> length (sanitizeInput_builtin v) \<le> 100
      \<and> (\<forall>c \<in> set (sanitizeInput_builtin v).
            is_lower c \<or> is_upper c \<or> is_ws c \<or> c = of_char CHR ''-'' \<or> c = 0x27)"
    unfolding isValidName_builtin_iff name_char_def ..
  have 3: "\<not> isValidName env Null" "\<not> isValidName env (Str [])"
    by (simp_all add: isValidName_def)
  have 4: "\<not> isValidName env (Str (js ''A''))" "isValidName env (Str (js ''Jean-Claude Van Damme''))"
    if "dompurify_import env = None"
    unfolding isValidName_iff plain_A [OF that] plain_Jean [OF that]
    using name_char_Jean by (simp_all add: js_def)
  from 1 2 3 4 builtin_names show ?thesis by blast
qed

theorem isValidName_exact_witness:
  "dompurify_import browser_env = None
   \<and> isValidName browser_env (Str (js ''Jean-Claude Van Damme''))
   \<and> \<not> isValidName browser_env (Str (js ''A''))
   \<and> \<not> isValidName browser_env (Str [])"
proof -
  have h: "dompurify_import browser_env = None" by (simp add: browser_env_def)
  with isValidName_exact [of browser_env "Str []"] show ?thesis by blast
qed

text \<open>
  C6 as stated fails on both sides of the character set: \<open>A<TAB>B\<close> is accepted although
  a tab is not a letter, a space, a hyphen or an apostrophe, and the name \<open>Elan\<close> written
  with an accented capital E (code unit \<open>0xC9\<close>) is rejected although it consists of
  letters.
\<close>

theorem isValidName_tab_accepted:
  "sanitizeInput browser_env (Str [0x41, 0x09, 0x42]) = [0x41, 0x09, 0x42]
   \<and> isValidName browser_env (Str [0x41, 0x09, 0x42])
   \<and> (0x09 :: jschar) \<noteq> 0x20 \<and> (0x09 :: jschar) \<noteq> 0x2D \<and> (0x09 :: jschar) \<noteq> 0x27
   \<and> \<not> is_lower 0x09 \<and> \<not> is_upper 0x09
   \<and> sanitizeInput browser_env (Str [0xC9, 0x6C, 0x61, 0x6E]) = [0xC9, 0x6C, 0x61, 0x6E]
   \<and> \<not> isValidName browser_env (Str [0xC9, 0x6C, 0x61, 0x6E])"
  by code_simp

subsection \<open>C7\<close>

lemma email_runs:
  "matches email_regex (js ''user@example.com'')"
  "matches email_regex (js ''USER@EXAMPLE.COM'')"
  "\<not> matches email_regex (js ''@example.com'')"
  "\<not> matches email_regex []"
  by code_simp+

lemma plain_emails:
  assumes "dompurify_import env = None"
  shows "sanitizeInput env (Str (js ''user@example.com'')) = js ''user@example.com''"
    and "sanitizeInput env (Str (js ''USER@EXAMPLE.COM'')) = js ''USER@EXAMPLE.COM''"
    and "sanitizeInput env (Str (js ''@example.com'')) = js ''@example.com''"
  by (rule sanitizeInput_plain [OF assms]; simp add: js_def is_ws_def)+

text \<open>
  C7. With the validator the module builds itself when the import of the package fails,
  \<open>isValidEmail\<close> rejects \<open>null\<close>, \<open>undefined\<close> and the empty string, and accepts an input
  exactly when its sanitized text is a non-empty local part, an \<open>@\<close>, and a domain that has a
  dot with text on both sides, with no white space and no further \<open>@\<close> anywhere. With the
  built-in sanitizer the answer does not change when the letters of the input are put in
  upper or in lower case; \<open>user@example.com\<close> and \<open>USER@EXAMPLE.COM\<close> are accepted and
  \<open>@example.com\<close> is rejected.
\<close>

theorem isValidEmail_fallback:
  assumes "validator_import env = None"
  shows "\<not> isValidEmail env Null \<and> \<not> isValidEmail env Undefined \<and> \<not> isValidEmail env (Str [])
    \<and> (isValidEmail env v \<longleftrightarrow>
         (\<exists>local b c.
            sanitizeInput env v = local @ of_char CHR ''@'' # b @ of_char CHR ''.'' # c
            \<and> local \<noteq> [] \<and> b \<noteq> [] \<and> c \<noteq> []
            \<and> (\<forall>x \<in> set local. \<not> is_ws x \<and> x \<noteq> of_char CHR ''@'')
            \<and> (\<forall>x \<in> set b. \<not> is_ws x \<and> x \<noteq> of_char CHR ''@'')
            \<and> (\<forall>x \<in> set c. \<not> is_ws x \<and> x \<noteq> of_char CHR ''@'')))
    \<and> (dompurify_import env = None \<longrightarrow>
         isValidEmail env (Str (map ascii_upper s)) = isValidEmail env (Str s)
         \<and> isValidEmail env (Str (map ascii_lower s)) = isValidEmail env (Str s)
         \<and> isValidEmail env (Str (js ''user@example.com''))
         \<and> isValidEmail env (Str (js ''USER@EXAMPLE.COM''))
         \<and> \<not> isValidEmail env (Str (js ''@example.com'')))"
proof -
  have 1: "\<not> isValidEmail env Null" "\<not> isValidEmail env Undefined" "\<not> isValidEmail env (Str [])"
    by (simp_all add: isValidEmail_def)
  have 2: "isValidEmail env v \<longleftrightarrow>
         (\<exists>local b c.
            sanitizeInput env v = local @ of_char CHR ''@'' # b @ of_char CHR ''.'' # c
            \<and> local \<noteq> [] \<and> b \<noteq> [] \<and> c \<noteq> []
            \<and> (\<forall>x \<in> set local. \<not> is_ws x \<and> x \<noteq> of_char CHR ''@'')
            \<and> (\<forall>x \<in> set b. \<not> is_ws x \<and> x \<noteq> of_char CHR ''@'')
            \<and> (\<forall>x \<in> set c. \<not> is_ws x \<and> x \<noteq> of_char CHR ''@''))"
    unfolding isValidEmail_iff [OF assms] matches_email_regex not_ws_at_def ..
  have 3: "isValidEmail env (Str (map ascii_upper s)) = isValidEmail env (Str s)"
    "isValidEmail env (Str (map ascii_lower s)) = isValidEmail env (Str s)"
    if d: "dompurify_import env = None"
  proof -
    show "isValidEmail env (Str (map ascii_upper s)) = isValidEmail env (Str s)"
      using assms d ascii_upper_ws by (rule isValidEmail_map) (rule ascii_upper_special)
    show "isValidEmail env (Str (map ascii_lower s)) = isValidEmail env (Str s)"
      using assms d ascii_lower_ws by (rule isValidEmail_map) (rule ascii_lower_special)
  qed
  have 4: "isValidEmail env (Str (js ''user@example.com''))"
    "isValidEmail env (Str (js ''USER@EXAMPLE.COM''))"
    "\<not> isValidEmail env (Str (js ''@example.com''))"
    if d: "dompurify_import env = None"
    unfolding isValidEmail_iff [OF assms] plain_emails [OF d] by (rule email_runs)+
  from 1 2 3 4 show ?thesis by blast
qed

theorem isValidEmail_fallback_witness:
  "validator_import browser_env = None \<and> dompurify_import browser_env = None
   \<and> isValidEmail browser_env (Str (js ''user@example.com''))
   \<and> isValidEmail browser_env (Str (map ascii_upper (js ''user@example.com'')))
   \<and> \<not> isValidEmail browser_env (Str (js ''@example.com''))
   \<and> \<not> isValidEmail browser_env Null"
proof -
  have h: "validator_import browser_env = None" "dompurify_import browser_env = None"
    by (simp_all add: browser_env_def)
  from isValidEmail_fallback [OF h(1), where s = "js ''user@example.com''"] h
  show ?thesis by blast
qed

subsection \<open>C8\<close>

lemma plain_messages:
  assumes "dompurify_import env = None"
  shows "sanitizeInput env (Str (js ''1234'')) = js ''1234''"
    and "sanitizeInput env (Str (js ''12345'')) = js ''12345''"
    and "sanitizeInput env (Str (replicate 5000 (of_char CHR ''a''))) = replicate 5000 (of_char CHR ''a'')"
    and "sanitizeInput env (Str (replicate 5001 (of_char CHR ''a''))) = replicate 5001 (of_char CHR ''a'')"
  by (rule sanitizeInput_plain [OF assms]; simp add: js_def is_ws_def)+

text \<open>
  C8. With the validator the module builds itself when the import of the package fails,
  \<open>isValidMessage\<close> returns true exactly when the sanitized input has between 5 and 5000
  code units; \<open>null\<close> and \<open>undefined\<close> are invalid. With the built-in sanitizer \<open>1234\<close> is
  invalid, \<open>12345\<close> is valid, 5000 letters \<open>a\<close> are valid and 5001 are not.
\<close>

theorem isValidMessage_fallback:
  assumes "validator_import env = None"
  shows "(isValidMessage env v \<longleftrightarrow>
            5 \<le> length (sanitizeInput env v) \<and> length (sanitizeInput env v) \<le> 5000)
    \<and> \<not> isValidMessage env Null \<and> \<not> isValidMessage env Undefined
    \<and> (dompurify_import env = None \<longrightarrow>
          \<not> isValidMessage env (Str (js ''1234''))
          \<and> isValidMessage env (Str (js ''12345''))
          \<and> isValidMessage env (Str (replicate 5000 (of_char CHR ''a'')))
          \<and> \<not> isValidMessage env (Str (replicate 5001 (of_char CHR ''a''))))"
proof -
  have 1: "\<not> isValidMessage env Null" "\<not> isValidMessage env Undefined"
    by (simp_all add: isValidMessage_def)
  have 2: "\<not> isValidMessage env (Str (js ''1234''))"
    "isValidMessage env (Str (js ''12345''))"
    "isValidMessage env (Str (replicate 5000 (of_char CHR ''a'')))"
    "\<not> isValidMessage env (Str (replicate 5001 (of_char CHR ''a'')))"
    if d: "dompurify_import env = None"
    unfolding isValidMessage_iff [OF assms] plain_messages [OF d]
    by (simp_all add: js_def)
  from isValidMessage_iff [OF assms, of v] 1 2 show ?thesis by blast
qed

theorem isValidMessage_fallback_witness:
  "validator_import browser_env = None \<and> dompurify_import browser_env = None
   \<and> \<not> isValidMessage browser_env (Str (js ''1234''))
   \<and> isValidMessage browser_env (Str (js ''12345''))
   \<and> isValidMessage browser_env (Str (replicate 5000 (of_char CHR ''a'')))
   \<and> \<not> isValidMessage browser_env (Str (replicate 5001 (of_char CHR ''a'')))"
proof -
  have h: "validator_import browser_env = None" "dompurify_import browser_env = None"
    by (simp_all add: browser_env_def)
  from isValidMessage_fallback [OF h(1), where v = Null] h show ?thesis by blast
qed

subsection \<open>C5\<close>

text \<open>
  C5. When the four inputs are empty, \<open>validateContactForm\<close> returns \<open>false\<close>, shows one error
  dialog whose list is exactly the three messages for the required name, e-mail address
  and message (none for the optional phone number), and issues no network call. The
  hidden input, the loading environment and the earlier state of the page do not matter;
  the CSRF variant of the controller behaves the same.
\<close>

theorem empty_form_three_errors:
  assumes "field_value st NameField = []" "field_value st EmailField = []"
    "field_value st PhoneField = []" "field_value st MessageField = []"
  shows "fst (validateContactForm env r outcome st) = Some False
    \<and> events (snd (validateContactForm env r outcome st)) =
        events st @
          [PreventDefault,
           ErrorModalShown (wittyErrorMessages ! unat r)
             [js ''Name is required'', js ''Email is required'', js ''Message is required'']]
    \<and> requests (events (snd (validateContactForm env r outcome st))) = requests (events st)
    \<and> fst (validateContactForm_csrf lc tok r outcome st) = Some False
    \<and> events (snd (validateContactForm_csrf lc tok r outcome st)) =
        events st @
          [PreventDefault,
           ErrorModalShown (wittyErrorMessages ! unat r)
             [js ''Name is required'', js ''Email is required'', js ''Message is required'']]
    \<and> requests (events (snd (validateContactForm_csrf lc tok r outcome st))) = requests (events st)"
  using assms
  by (simp add: validateContactForm_def validateContactForm_csrf_def collect_errors_def
      collect_errors_builtin_def add_error_def clear_errors_def emit_def showErrorModal_def
      requests_append Let_def)

theorem empty_form_three_errors_witness:
  "field_value fresh_page NameField = [] \<and> field_value fresh_page EmailField = []
   \<and> field_value fresh_page PhoneField = [] \<and> field_value fresh_page MessageField = []
   \<and> fst (validateContactForm browser_env 3 NetworkError fresh_page) = Some False
   \<and> events (snd (validateContactForm browser_env 3 NetworkError fresh_page)) =
        [PreventDefault,
         ErrorModalShown (js ''Error 404: Required fields not found!'')
           [js ''Name is required'', js ''Email is required'', js ''Message is required'']]
   \<and> requests (events (snd (validateContactForm browser_env 3 NetworkError fresh_page))) = []"
proof -
  have h: "field_value fresh_page NameField = []" "field_value fresh_page EmailField = []"
    "field_value fresh_page PhoneField = []" "field_value fresh_page MessageField = []"
    by (simp_all add: fresh_page_def)
  have e: "events fresh_page = []" by (simp add: fresh_page_def)
  have w: "wittyErrorMessages ! unat (3 :: 3 word) = js ''Error 404: Required fields not found!''"
    by (simp add: wittyErrorMessages_def)
  from empty_form_three_errors [OF h, of browser_env 3 NetworkError] h
  show ?thesis unfolding e w by simp
qed

subsection \<open>C9\<close>

text \<open>
  C9. Whatever the outcome of the request, \<open>submitForm\<close> leaves the submit button enabled
  with the label \<open>Submit\<close>. A response that is not ok and carries a non-empty \<open>message\<close>
  shows an error dialog with that message; a response that is not ok without one shows
  the dialog with \<open>Failed to send message\<close>; a network error, a body that is not JSON or
  a \<open>null\<close> body of a response that is not ok shows it with
  \<open>Failed to send message. Please try again later.\<close>; an ok response with a JSON body
  shows the success dialog and resets the form.
\<close>

theorem submitForm_every_outcome:
  "submit_disabled (submitForm formData outcome r st) = False
   \<and> submit_innerHTML (submitForm formData outcome r st) = js ''Submit''
   \<and> (submit_innerHTML st = js ''Submit'' \<longrightarrow>
         submit_innerHTML (submitForm formData outcome r st) = submit_innerHTML st)
   \<and> (\<forall>m. outcome = Response False (JsonValue (Some m)) \<and> m \<noteq> [] \<longrightarrow>
         dialogs (events (submitForm formData outcome r st)) =
           dialogs (events st) @ [ErrorModalShown (wittyErrorMessages ! unat r) [m]]
         \<and> error_modal (submitForm formData outcome r st) =
             Some (wittyErrorMessages ! unat r, [m]))
   \<and> (outcome = Response False (JsonValue None) \<or> outcome = Response False (JsonValue (Some [])) \<longrightarrow>
         dialogs (events (submitForm formData outcome r st)) =
           dialogs (events st) @
             [ErrorModalShown (wittyErrorMessages ! unat r) [js ''Failed to send message'']])
   \<and> (outcome = NetworkError \<or> outcome = Response False NotJson
        \<or> outcome = Response True NotJson \<or> outcome = Response False JsonNull \<longrightarrow>
         dialogs (events (submitForm formData outcome r st)) =
           dialogs (events st) @
             [ErrorModalShown (wittyErrorMessages ! unat r)
                [js ''Failed to send message. Please try again later.'']])
   \<and> (outcome = Response True JsonNull \<or> (\<exists>m. outcome = Response True (JsonValue m)) \<longrightarrow>
         dialogs (events (submitForm formData outcome r st)) =
           dialogs (events st) @ [SuccessModalShown]
         \<and> field_value (submitForm formData outcome r st) = field_default st)"
proof -
  have button: "submit_disabled (submitForm formData outcome r st) = False"
    "submit_innerHTML (submitForm formData outcome r st) = js ''Submit''"
    using submitForm_button by blast+
  have rest: "dialogs (events (submitForm formData outcome r st)) =
      (case outcome of
         NetworkError \<Rightarrow>
           dialogs (events st) @
             [ErrorModalShown (wittyErrorMessages ! unat r)
                [js ''Failed to send message. Please try again later.'']]
       | Response ok NotJson \<Rightarrow>
           dialogs (events st) @
             [ErrorModalShown (wittyErrorMessages ! unat r)
                [js ''Failed to send message. Please try again later.'']]
       | Response ok JsonNull \<Rightarrow>
           if ok then dialogs (events st) @ [SuccessModalShown]
           else dialogs (events st) @
             [ErrorModalShown (wittyErrorMessages ! unat r)
                [js ''Failed to send message. Please try again later.'']]
       | Response ok (JsonValue m) \<Rightarrow>
           if ok then dialogs (events st) @ [SuccessModalShown]
           else dialogs (events st) @
             [ErrorModalShown (wittyErrorMessages ! unat r)
                [case m of Some t \<Rightarrow> if t \<noteq> [] then t else js ''Failed to send message''
                 | None \<Rightarrow> js ''Failed to send message'']])"
    by (simp add: submitForm_def submit_catch_def enable_submit_def showErrorModal_def
        showSuccessModal_def emit_def dialogs_append Let_def
        split: fetch_outcome.splits json_body.splits)
  have modal: "error_modal (submitForm formData (Response False (JsonValue (Some m))) r st) =
      Some (wittyErrorMessages ! unat r, [m])" if "m \<noteq> []" for m
    using that
    by (simp add: submitForm_def enable_submit_def showErrorModal_def emit_def Let_def)
  have reset: "field_value (submitForm formData (Response True b) r st) = field_default st"
    if "b \<noteq> NotJson" for b
    using that
    by (cases b)
      (simp_all add: submitForm_def enable_submit_def showSuccessModal_def emit_def Let_def)
  show ?thesis
  proof (intro conjI allI impI)
    show "submit_disabled (submitForm formData outcome r st) = False" by (rule button)
    show "submit_innerHTML (submitForm formData outcome r st) = js ''Submit''" by (rule button)
    show "submit_innerHTML (submitForm formData outcome r st) = submit_innerHTML st"
      if "submit_innerHTML st = js ''Submit''" using that button(2) by simp
  next
    fix m assume a: "outcome = Response False (JsonValue (Some m)) \<and> m \<noteq> []"
    then show "dialogs (events (submitForm formData outcome r st)) =
        dialogs (events st) @ [ErrorModalShown (wittyErrorMessages ! unat r) [m]]"
      using rest by simp
    from a show "error_modal (submitForm formData outcome r st) =
        Some (wittyErrorMessages ! unat r, [m])"
      using modal by blast
  next
    assume "outcome = Response False (JsonValue None)
      \<or> outcome = Response False (JsonValue (Some []))"
    then show "dialogs (events (submitForm formData outcome r st)) =
        dialogs (events st) @
          [ErrorModalShown (wittyErrorMessages ! unat r) [js ''Failed to send message'']]"
      using rest by auto
  next
    assume "outcome = NetworkError \<or> outcome = Response False NotJson
        \<or> outcome = Response True NotJson \<or> outcome = Response False JsonNull"
    then show "dialogs (events (submitForm formData outcome r st)) =
        dialogs (events st) @
          [ErrorModalShown (wittyErrorMessages ! unat r)
             [js ''Failed to send message. Please try again later.'']]"
      using rest by auto
  next
    assume a: "outcome = Response True JsonNull \<or> (\<exists>m. outcome = Response True (JsonValue m))"
    then show "dialogs (events (submitForm formData outcome r st)) =
        dialogs (events st) @ [SuccessModalShown]"
      using rest by auto
    from a show "field_value (submitForm formData outcome r st) = field_default st"
      using reset by auto
  qed
qed

theorem submitForm_every_outcome_witness:
  "js ''Rate limit exceeded'' \<noteq> []
   \<and> submit_disabled
       (submitForm [] (Response False (JsonValue (Some (js ''Rate limit exceeded'')))) 3 fresh_page)
       = False
   \<and> submit_innerHTML
       (submitForm [] (Response False (JsonValue (Some (js ''Rate limit exceeded'')))) 3 fresh_page)
       = js ''Submit''
   \<and> dialogs (events
       (submitForm [] (Response False (JsonValue (Some (js ''Rate limit exceeded'')))) 3 fresh_page))
       = [ErrorModalShown (wittyErrorMessages ! unat (3 :: 3 word)) [js ''Rate limit exceeded'']]
   \<and> dialogs (events (submitForm [] NetworkError 3 fresh_page))
       = [ErrorModalShown (wittyErrorMessages ! unat (3 :: 3 word))
            [js ''Failed to send message. Please try again later.'']]"
proof -
  have n: "js ''Rate limit exceeded'' \<noteq> []" by (simp add: js_def)
  have e: "dialogs (events fresh_page) = []" by (simp add: fresh_page_def)
  from submitForm_every_outcome
    [of "[]" "Response False (JsonValue (Some (js ''Rate limit exceeded'')))" 3 fresh_page]
    submitForm_every_outcome [of "[]" NetworkError 3 fresh_page] n
  show ?thesis unfolding e by simp
qed

subsection \<open>Sample submissions\<close>

lemma sample_valid:
  "fields_valid browser_env
     (filled_page ''John Doe'' ''john@example.com'' [] ''This is a test message'' ''spam-bot-value'')"
  "fields_valid browser_env
     (filled_page ''John Doe'' ''john@example.com'' [] ''This is a test message'' [])"
  "fields_valid_builtin (map ascii_lower)
     (filled_page ''John Doe'' ''john@example.com'' [] ''This is a test message'' [])"
  "\<not> fields_valid browser_env (filled_page [] [] [] [] ''spam-bot-value'')"
  by code_simp+

lemma sample_website:
  "website (filled_page n e p m h) = Some (js h)"
  "events (filled_page n e p m h) = []"
  by (simp_all add: filled_page_def fresh_page_def)

subsection \<open>C2\<close>

text \<open>
  C2, as amended. The hidden input is looked at only after the four fields have been
  validated. When it holds a non-empty value and the submission passes validation,
  \<open>validateContactForm\<close> returns \<open>false\<close> and does nothing else than prevent the default
  action and clear the error marks: no dialog, no network call. When the submission does
  not pass validation, the error dialog is shown whatever the hidden input holds, and no
  network call is made.
\<close>

theorem honeypot_after_validation:
  assumes "website st = Some h" "h \<noteq> []"
  shows "(fields_valid env st \<longrightarrow>
            validateContactForm env r outcome st =
              (Some False, clear_errors (emit PreventDefault st))
            \<and> dialogs (events (snd (validateContactForm env r outcome st))) = dialogs (events st)
            \<and> requests (events (snd (validateContactForm env r outcome st))) = requests (events st))
       \<and> (\<not> fields_valid env st \<longrightarrow>
            fst (validateContactForm env r outcome st) = Some False
            \<and> (\<exists>errors. errors \<noteq> []
                  \<and> events (snd (validateContactForm env r outcome st)) =
                      events st @
                        [PreventDefault, ErrorModalShown (wittyErrorMessages ! unat r) errors])
            \<and> requests (events (snd (validateContactForm env r outcome st))) = requests (events st))"
proof (intro conjI impI)
  let ?st = "clear_errors (emit PreventDefault st)"
  let ?n = "sanitizeInput env (Str (field_value st NameField))"
  let ?e = "sanitizeInput env (Str (field_value st EmailField))"
  let ?p = "sanitizeInput env (Str (field_value st PhoneField))"
  let ?m = "sanitizeInput env (Str (field_value st MessageField))"
  have run: "validateContactForm env r outcome st =
      (case collect_errors env ?n ?e ?p ?m ?st of
         (st', errors) \<Rightarrow>
           if length errors > 0 then (Some False, showErrorModal r errors st')
           else if (case website st' of Some v \<Rightarrow> v \<noteq> [] | None \<Rightarrow> False) then (Some False, st')
           else (None,
                 submitForm
                   [(''name'', ?n), (''email'', ?e), (''phone'', if ?p \<noteq> [] then ?p else []),
                    (''message'', ?m)] outcome r st'))"
    by (simp add: validateContactForm_def emit_def Let_def split: prod.splits
        del: sanitizeInput.simps)
  have ev: "events ?st = events st @ [PreventDefault]" "website ?st = website st"
    by (simp_all add: clear_errors_def emit_def)
  {
    assume "fields_valid env st"
    then have "collect_errors env ?n ?e ?p ?m ?st = (?st, [])"
      by (intro collect_errors_valid) (simp_all add: fields_valid_def Let_def)
    with assms ev show v: "validateContactForm env r outcome st = (Some False, ?st)"
      unfolding run by simp
    show "dialogs (events (snd (validateContactForm env r outcome st))) = dialogs (events st)"
      unfolding v using ev by (simp add: dialogs_append)
    show "requests (events (snd (validateContactForm env r outcome st))) = requests (events st)"
      unfolding v using ev by (simp add: requests_append)
  }
  {
    assume "\<not> fields_valid env st"
    then have ne: "snd (collect_errors env ?n ?e ?p ?m ?st) \<noteq> []"
      by (intro collect_errors_invalid) (simp add: fields_valid_def Let_def)
    obtain st' errors where c: "collect_errors env ?n ?e ?p ?m ?st = (st', errors)"
      by (cases "collect_errors env ?n ?e ?p ?m ?st")
    with ne have errors: "errors \<noteq> []" by simp
    from c collect_errors_frame [of env ?n ?e ?p ?m ?st]
    have fr: "events st' = events ?st" by simp
    from c errors have v: "validateContactForm env r outcome st =
        (Some False, showErrorModal r errors st')"
      unfolding run by simp
    show "fst (validateContactForm env r outcome st) = Some False" unfolding v by simp
    have evs: "events (snd (validateContactForm env r outcome st)) =
        events st @ [PreventDefault, ErrorModalShown (wittyErrorMessages ! unat r) errors]"
      unfolding v using fr ev by (simp add: showErrorModal_def emit_def Let_def)
    with errors show "\<exists>errors. errors \<noteq> []
        \<and> events (snd (validateContactForm env r outcome st)) =
            events st @ [PreventDefault, ErrorModalShown (wittyErrorMessages ! unat r) errors]"
      by blast
    show "requests (events (snd (validateContactForm env r outcome st))) = requests (events st)"
      unfolding evs by (simp add: requests_append)
  }
qed

theorem honeypot_after_validation_witness:
  "website (filled_page ''John Doe'' ''john@example.com'' [] ''This is a test message''
             ''spam-bot-value'') = Some (js ''spam-bot-value'')
   \<and> js ''spam-bot-value'' \<noteq> []
   \<and> fields_valid browser_env
       (filled_page ''John Doe'' ''john@example.com'' [] ''This is a test message'' ''spam-bot-value'')
   \<and> fst (validateContactForm browser_env 3 (Response True (JsonValue None))
         (filled_page ''John Doe'' ''john@example.com'' [] ''This is a test message''
            ''spam-bot-value'')) = Some False
   \<and> dialogs (events (snd (validateContactForm browser_env 3 (Response True (JsonValue None))
         (filled_page ''John Doe'' ''john@example.com'' [] ''This is a test message''
            ''spam-bot-value'')))) = []
   \<and> requests (events (snd (validateContactForm browser_env 3 (Response True (JsonValue None))
         (filled_page ''John Doe'' ''john@example.com'' [] ''This is a test message''
            ''spam-bot-value'')))) = []
   \<and> \<not> fields_valid browser_env (filled_page [] [] [] [] ''spam-bot-value'')
   \<and> fst (validateContactForm browser_env 3 NetworkError
         (filled_page [] [] [] [] ''spam-bot-value'')) = Some False
   \<and> requests (events (snd (validateContactForm browser_env 3 NetworkError
         (filled_page [] [] [] [] ''spam-bot-value'')))) = []"
proof -
  have n: "js ''spam-bot-value'' \<noteq> []" by (simp add: js_def)
  from honeypot_after_validation [OF sample_website(1) n, of browser_env
      "''John Doe''" "''john@example.com''" "[]" "''This is a test message''"
      3 "Response True (JsonValue None)"]
    honeypot_after_validation [OF sample_website(1) n, of browser_env
      "[]" "[]" "[]" "[]" 3 NetworkError]
    sample_valid(1) sample_valid(4) n
  show ?thesis unfolding sample_website by (simp add: clear_errors_def emit_def sample_website)
qed

text \<open>
  C2 as stated fails: with the hidden input filled and all four fields empty the error
  dialog with the three required-field messages is shown.
\<close>

theorem honeypot_does_not_silence_errors:
  "website (filled_page [] [] [] [] ''spam-bot-value'') = Some (js ''spam-bot-value'')
   \<and> js ''spam-bot-value'' \<noteq> []
   \<and> dialogs (events (snd (validateContactForm browser_env 3 NetworkError
         (filled_page [] [] [] [] ''spam-bot-value'')))) =
       [ErrorModalShown (js ''Error 404: Required fields not found!'')
          [js ''Name is required'', js ''Email is required'', js ''Message is required'']]"
  by code_simp

subsection \<open>C4\<close>

text \<open>
  C4, as amended. A submission that passes validation and whose hidden input is empty or
  absent causes exactly one network call: a POST to the fixed endpoint with the header
  \<open>Content-Type: application/json\<close> and a body whose members are, in this order, \<open>name\<close>,
  \<open>email\<close>, \<open>phone\<close> and \<open>message\<close> with the sanitized values (an absent phone number is the
  empty string). In the CSRF variant of the controller, which has no hidden-input check,
  every submission that passes validation causes exactly one such call, and its body has
  \<open>csrf_token\<close> as a fifth member.
\<close>

theorem valid_submission_posts_once:
  "(fields_valid env st \<and> (website st = None \<or> website st = Some []) \<longrightarrow>
      requests (events (snd (validateContactForm env r outcome st))) =
        requests (events st) @
          [\<lparr> url = API_ENDPOINT, http_method = ''POST'',
             headers = [(''Content-Type'', ''application/json'')],
             body =
               [(''name'', sanitizeInput env (Str (field_value st NameField))),
                (''email'', sanitizeInput env (Str (field_value st EmailField))),
                (''phone'', sanitizeInput env (Str (field_value st PhoneField))),
                (''message'', sanitizeInput env (Str (field_value st MessageField)))] \<rparr>])
   \<and> (fields_valid_builtin lc st \<longrightarrow>
      requests (events (snd (validateContactForm_csrf lc tok r outcome st))) =
        requests (events st) @
          [\<lparr> url = API_ENDPOINT, http_method = ''POST'',
             headers = [(''Content-Type'', ''application/json'')],
             body =
               [(''name'', sanitizeInput_builtin (Str (field_value st NameField))),
                (''email'', sanitizeInput_builtin (Str (field_value st EmailField))),
                (''phone'', sanitizeInput_builtin (Str (field_value st PhoneField))),
                (''message'', sanitizeInput_builtin (Str (field_value st MessageField))),
                (''csrf_token'', tok)] \<rparr>])"
proof (intro conjI impI)
  let ?st = "clear_errors (emit PreventDefault st)"
  have ev: "requests (events ?st) = requests (events st)" "website ?st = website st"
    by (simp_all add: clear_errors_def emit_def requests_append)
  {
    let ?n = "sanitizeInput env (Str (field_value st NameField))"
    let ?e = "sanitizeInput env (Str (field_value st EmailField))"
    let ?p = "sanitizeInput env (Str (field_value st PhoneField))"
    let ?m = "sanitizeInput env (Str (field_value st MessageField))"
    assume a: "fields_valid env st \<and> (website st = None \<or> website st = Some [])"
    then have c: "collect_errors env ?n ?e ?p ?m ?st = (?st, [])"
      by (intro collect_errors_valid) (simp_all add: fields_valid_def Let_def)
    from a have w: "\<not> (case website ?st of Some v \<Rightarrow> v \<noteq> [] | None \<Rightarrow> False)"
      unfolding ev by auto
    have "validateContactForm env r outcome st =
        (None, submitForm
           [(''name'', ?n), (''email'', ?e), (''phone'', ?p), (''message'', ?m)] outcome r ?st)"
      using c w
      by (simp add: validateContactForm_def emit_def clear_errors_def Let_def
          del: sanitizeInput.simps)
    then show "requests (events (snd (validateContactForm env r outcome st))) =
        requests (events st) @
          [\<lparr> url = API_ENDPOINT, http_method = ''POST'',
             headers = [(''Content-Type'', ''application/json'')],
             body = [(''name'', ?n), (''email'', ?e), (''phone'', ?p), (''message'', ?m)] \<rparr>]"
      by (simp add: submitForm_requests ev del: sanitizeInput.simps)
  }
  {
    let ?n = "sanitizeInput_builtin (Str (field_value st NameField))"
    let ?e = "sanitizeInput_builtin (Str (field_value st EmailField))"
    let ?p = "sanitizeInput_builtin (Str (field_value st PhoneField))"
    let ?m = "sanitizeInput_builtin (Str (field_value st MessageField))"
    assume a: "fields_valid_builtin lc st"
    then have c: "collect_errors_builtin lc ?n ?e ?p ?m ?st = (?st, [])"
      by (intro collect_errors_builtin_valid) (simp_all add: fields_valid_builtin_def Let_def)
    have "validateContactForm_csrf lc tok r outcome st =
        (None, submitForm
           [(''name'', ?n), (''email'', ?e), (''phone'', ?p), (''message'', ?m),
            (''csrf_token'', tok)] outcome r ?st)"
      using c
      by (simp add: validateContactForm_csrf_def emit_def clear_errors_def Let_def
          del: sanitizeInput_builtin.simps)
    then show "requests (events (snd (validateContactForm_csrf lc tok r outcome st))) =
        requests (events st) @
          [\<lparr> url = API_ENDPOINT, http_method = ''POST'',
             headers = [(''Content-Type'', ''application/json'')],
             body = [(''name'', ?n), (''email'', ?e), (''phone'', ?p), (''message'', ?m),
                     (''csrf_token'', tok)] \<rparr>]"
      by (simp add: submitForm_requests ev del: sanitizeInput_builtin.simps)
  }
qed

lemma sample_sanitized:
  "sanitizeInput browser_env
     (Str (field_value (filled_page ''John Doe'' ''john@example.com'' [] ''This is a test message'' [])
        NameField)) = js ''John Doe''"
  "sanitizeInput browser_env
     (Str (field_value (filled_page ''John Doe'' ''john@example.com'' [] ''This is a test message'' [])
        EmailField)) = js ''john@example.com''"
  "sanitizeInput browser_env
     (Str (field_value (filled_page ''John Doe'' ''john@example.com'' [] ''This is a test message'' [])
        PhoneField)) = []"
  "sanitizeInput browser_env
     (Str (field_value (filled_page ''John Doe'' ''john@example.com'' [] ''This is a test message'' [])
        MessageField)) = js ''This is a test message''"
  by code_simp+

theorem valid_submission_posts_once_witness:
  "fields_valid browser_env
     (filled_page ''John Doe'' ''john@example.com'' [] ''This is a test message'' [])
   \<and> website (filled_page ''John Doe'' ''john@example.com'' [] ''This is a test message'' [])
       = Some []
   \<and> requests (events (snd (validateContactForm browser_env 3 (Response True (JsonValue None))
        (filled_page ''John Doe'' ''john@example.com'' [] ''This is a test message'' [])))) =
       [\<lparr> url = API_ENDPOINT, http_method = ''POST'',
          headers = [(''Content-Type'', ''application/json'')],
          body = [(''name'', js ''John Doe''), (''email'', js ''john@example.com''),
                  (''phone'', []), (''message'', js ''This is a test message'')] \<rparr>]"
proof -
  have w: "website (filled_page ''John Doe'' ''john@example.com'' [] ''This is a test message'' [])
      = Some []"
    by (simp add: sample_website js_def)
  from valid_submission_posts_once
    [of browser_env "filled_page ''John Doe'' ''john@example.com'' [] ''This is a test message'' []"
      3 "Response True (JsonValue None)"]
    sample_valid(2) w
  show ?thesis unfolding sample_sanitized sample_website by simp
qed

text \<open>
  C4 as stated fails in two ways: a submission that passes validation but has the hidden
  input filled causes no network call, and the CSRF variant sends five members.
\<close>

theorem valid_submission_without_post:
  "fields_valid browser_env
     (filled_page ''John Doe'' ''john@example.com'' [] ''This is a test message'' ''spam-bot-value'')
   \<and> requests (events (snd (validateContactForm browser_env 3 (Response True (JsonValue None))
        (filled_page ''John Doe'' ''john@example.com'' [] ''This is a test message''
           ''spam-bot-value'')))) = []
   \<and> map (map fst \<circ> body)
       (requests (events (snd (validateContactForm_csrf (map ascii_lower) (js ''token'') 3
          (Response True (JsonValue None))
          (filled_page ''John Doe'' ''john@example.com'' [] ''This is a test message'' []))))) =
       [[''name'', ''email'', ''phone'', ''message'', ''csrf_token'']]"
  by code_simp

end
